theory Spec2Isabelle
  imports Main "HOL-Library.Word"
begin

unbundle bit_operations_syntax

section \<open>Machine integers and byte order\<close>

text \<open>
  The engine is Go code. A Go \<open>byte\<close> is an 8-bit word, \<open>int16\<close> and \<open>int32\<close> are
  16- and 32-bit words read as two's complement by \<open>sint\<close>. Go's \<open>int\<close> is taken at its
  64-bit width (amd64, arm64): where the source computes with \<open>int\<close> the model computes
  with mathematical integers and wraps the result with \<open>go_int\<close>.
\<close>

type_synonym byte = "8 word"
type_synonym int16 = "16 word"
type_synonym int32 = "32 word"

definition go_int :: "int \<Rightarrow> int" where
  "go_int x = signed_take_bit 63 x"

text \<open>\<open>binary.LittleEndian.Uint16\<close> and \<open>Uint32\<close> on the bytes of a slice.\<close>

definition Uint16 :: "byte \<Rightarrow> byte \<Rightarrow> 16 word" where
  "Uint16 b0 b1 = ucast b0 OR push_bit 8 (ucast b1)"

definition Uint32 :: "byte \<Rightarrow> byte \<Rightarrow> byte \<Rightarrow> byte \<Rightarrow> 32 word" where
  "Uint32 b0 b1 b2 b3 =
     ucast b0 OR push_bit 8 (ucast b1) OR push_bit 16 (ucast b2) OR push_bit 24 (ucast b3)"

text \<open>
  A page image is the array \<open>[PageSize]byte\<close>. It is modelled as a function from the
  index to the byte; every access of the model checks the bounds the way the Go runtime
  does, so that the values outside \<open>0..4095\<close> are never read or written.
\<close>

type_synonym image = "int \<Rightarrow> byte"

definition PutUint16 :: "image \<Rightarrow> int \<Rightarrow> 16 word \<Rightarrow> image" where
  "PutUint16 d off v = d(off := ucast v, off + 1 := ucast (drop_bit 8 v))"

definition PutUint32 :: "image \<Rightarrow> int \<Rightarrow> 32 word \<Rightarrow> image" where
  "PutUint32 d off v =
     d(off := ucast v, off + 1 := ucast (drop_bit 8 v),
       off + 2 := ucast (drop_bit 16 v), off + 3 := ucast (drop_bit 24 v))"

text \<open>\<open>copy(d[lo:lo+n], src)\<close> for a slice of \<open>n\<close> bytes and a source of at least
  \<open>n\<close> bytes; the caller has checked the slice bounds.\<close>

definition copy_bytes :: "image \<Rightarrow> int \<Rightarrow> int \<Rightarrow> byte list \<Rightarrow> image" where
  "copy_bytes d lo n src = (\<lambda>i. if lo \<le> i \<and> i < lo + n then src ! nat (i - lo) else d i)"

text \<open>The bytes \<open>d[lo:hi]\<close> as a list.\<close>

definition slice :: "image \<Rightarrow> int \<Rightarrow> int \<Rightarrow> byte list" where
  "slice d lo hi = map d [lo..hi - 1]"

section \<open>Errors\<close>

text \<open>
  The source reports failures as formatted error strings; each constructor below stands
  for one message. \<open>Panic\<close> is a run-time panic of the Go program (a slice bound out of
  range, a nil pointer dereference): the call does not return to its caller.
\<close>

datatype error =
    PageFull | NoSuchSlot | EmptySlot | CorruptSlot | SizeMismatch | AlreadyEmpty
  | NotFound | NotOpen | AlreadyOpen | UnknownTable | DuplicateTable | IOError | LoadFailed
  | ValueCountMismatch | NullNotAllowed | TypeMismatch | StringTooLong
  | UnsupportedType | EmptyData | Truncated
  | Panic

section \<open>The slotted page\<close>

definition PageSize :: int where "PageSize = 4096"
definition PageHeaderSize :: int where "PageHeaderSize = 18"
definition SlotEntrySize :: int where "SlotEntrySize = 4"

record PageHeader =
  PageID :: int32
  SlotCount :: int16
  FreeStart :: int16
  FreeEnd :: int16
  NextPageID :: int32
  PrevPageID :: int32

record SlotEntry =
  Offset :: int16
  Size :: int16

record Page =
  pagePageID :: int32
  Data :: image
  dirty :: bool

definition readHeader :: "Page \<Rightarrow> PageHeader" where
  "readHeader p =
     \<lparr> PageID = Uint32 (Data p 0) (Data p 1) (Data p 2) (Data p 3),
       SlotCount = Uint16 (Data p 4) (Data p 5),
       FreeStart = Uint16 (Data p 6) (Data p 7),
       FreeEnd = Uint16 (Data p 8) (Data p 9),
       NextPageID = Uint32 (Data p 10) (Data p 11) (Data p 12) (Data p 13),
       PrevPageID = Uint32 (Data p 14) (Data p 15) (Data p 16) (Data p 17) \<rparr>"

definition writeHeader :: "PageHeader \<Rightarrow> Page \<Rightarrow> Page" where
  "writeHeader header p =
     p\<lparr> Data :=
          PutUint32 (PutUint32 (PutUint16 (PutUint16 (PutUint16 (PutUint32 (Data p)
            0 (PageID header)) 4 (SlotCount header)) 6 (FreeStart header))
            8 (FreeEnd header)) 10 (NextPageID header)) 14 (PrevPageID header),
        dirty := True \<rparr>"

definition NewPage :: "int32 \<Rightarrow> Page" where
  "NewPage pageID =
     writeHeader
       \<lparr> PageID = pageID, SlotCount = 0, FreeStart = word_of_int PageHeaderSize,
         FreeEnd = word_of_int PageSize, NextPageID = - 1, PrevPageID = - 1 \<rparr>
       \<lparr> pagePageID = pageID, Data = (\<lambda>_. 0), dirty = True \<rparr>"

text \<open>\<open>LoadPage\<close> returns nil on a wrong length: \<open>None\<close>.\<close>

definition LoadPage :: "int32 \<Rightarrow> byte list \<Rightarrow> Page option" where
  "LoadPage pageID data =
     (if int (length data) \<noteq> PageSize then None
      else Some \<lparr> pagePageID = pageID,
                  Data = (\<lambda>i. if 0 \<le> i \<and> i < PageSize then data ! nat i else 0),
                  dirty = False \<rparr>)"

definition slotOffset :: "int \<Rightarrow> int" where
  "slotOffset slotID = go_int (PageHeaderSize + go_int (slotID * SlotEntrySize))"

text \<open>The slot entry stored at a byte offset of the image.\<close>

definition slotAt :: "image \<Rightarrow> int \<Rightarrow> SlotEntry" where
  "slotAt d off = \<lparr> Offset = Uint16 (d off) (d (off + 1)),
                    Size = Uint16 (d (off + 2)) (d (off + 3)) \<rparr>"

text \<open>\<open>readSlot\<close> slices \<open>p.Data[offset:offset+2]\<close> and \<open>p.Data[offset+2:offset+4]\<close>;
  a slice outside the array panics.\<close>

definition readSlot :: "int \<Rightarrow> Page \<Rightarrow> error + SlotEntry" where
  "readSlot slotID p =
     (let offset = slotOffset slotID
      in if 0 \<le> offset \<and> offset + 4 \<le> PageSize then Inr (slotAt (Data p) offset)
         else Inl Panic)"

text \<open>\<open>writeSlot\<close> writes the offset first: when only the second slice is out of
  range the panic leaves the first two bytes written.\<close>

definition writeSlot :: "int \<Rightarrow> SlotEntry \<Rightarrow> Page \<Rightarrow> (error + unit) \<times> Page" where
  "writeSlot slotID slot p =
     (let offset = slotOffset slotID
      in if \<not> (0 \<le> offset \<and> offset + 2 \<le> PageSize) then (Inl Panic, p)
         else let p1 = p\<lparr> Data := PutUint16 (Data p) offset (Offset slot) \<rparr>
              in if \<not> offset + 4 \<le> PageSize then (Inl Panic, p1)
                 else (Inr (), p1\<lparr> Data := PutUint16 (Data p1) (offset + 2) (Size slot),
                                    dirty := True \<rparr>))"

text \<open>The scan \<open>for i := 0; i < int(header.SlotCount); i++\<close> of \<open>InsertRecord\<close>:
  the first slot of size 0, or \<open>-1\<close>.\<close>

function findSlot :: "Page \<Rightarrow> int \<Rightarrow> int \<Rightarrow> error + int" where
  "findSlot p i n =
     (if i < n then
        (case readSlot i p of
           Inl e \<Rightarrow> Inl e
         | Inr slot \<Rightarrow> if Size slot = 0 then Inr i else findSlot p (i + 1) n)
      else Inr (- 1))"
  by pat_completeness auto
termination
  by (relation "measure (\<lambda>(p, i, n). nat (n - i))") auto

declare findSlot.simps [simp del]

definition InsertRecord :: "byte list \<Rightarrow> Page \<Rightarrow> (error + int) \<times> Page" where
  "InsertRecord record p =
     (let header = readHeader p;
          recordSize = int (length record);
          freeSpace = sint (FreeEnd header) - sint (FreeStart header) - SlotEntrySize
      in if freeSpace < recordSize then (Inl PageFull, p)
         else
           (case findSlot p 0 (sint (SlotCount header)) of
              Inl e \<Rightarrow> (Inl e, p)
            | Inr found \<Rightarrow>
                let slotID = (if found = - 1 then sint (SlotCount header) else found);
                    header1 = (if found = - 1
                               then header\<lparr> SlotCount := SlotCount header + 1,
                                     FreeStart := FreeStart header + word_of_int SlotEntrySize \<rparr>
                               else header);
                    recordOffset = sint (FreeEnd header) - recordSize
                in if \<not> (0 \<le> recordOffset \<and> recordOffset + recordSize \<le> PageSize)
                   then (Inl Panic, p)
                   else
                     let p1 = p\<lparr> Data := copy_bytes (Data p) recordOffset recordSize record \<rparr>;
                         slot = \<lparr> Offset = word_of_int recordOffset,
                                  Size = word_of_int recordSize \<rparr>
                     in (case writeSlot slotID slot p1 of
                           (Inl e, p2) \<Rightarrow> (Inl e, p2)
                         | (Inr _, p2) \<Rightarrow>
                             (Inr slotID,
                              writeHeader (header1\<lparr> FreeEnd := word_of_int recordOffset \<rparr>) p2))))"

text \<open>\<open>GetRecord\<close> does not write to the page. The slice
  \<open>p.Data[slot.Offset:slot.Offset+slot.Size]\<close> adds in \<open>int16\<close>.\<close>

definition GetRecord :: "int \<Rightarrow> Page \<Rightarrow> error + byte list" where
  "GetRecord slotID p =
     (let header = readHeader p
      in if slotID \<ge> sint (SlotCount header) then Inl NoSuchSlot
         else
           (case readSlot slotID p of
              Inl e \<Rightarrow> Inl e
            | Inr slot \<Rightarrow>
                if Size slot = 0 then Inl EmptySlot
                else if sint (Offset slot) < 0 \<or> sint (Size slot) < 0 then Inl CorruptSlot
                else if sint (Offset slot) + sint (Size slot) > PageSize then Inl CorruptSlot
                else
                  let lo = sint (Offset slot); hi = sint (Offset slot + Size slot)
                  in if \<not> (0 \<le> lo \<and> lo \<le> hi \<and> hi \<le> PageSize) then Inl Panic
                     else Inr (take (nat (sint (Size slot))) (slice (Data p) lo hi))))"

definition UpdateRecord :: "int \<Rightarrow> byte list \<Rightarrow> Page \<Rightarrow> (error + unit) \<times> Page" where
  "UpdateRecord slotID newRecord p =
     (let header = readHeader p
      in if slotID \<ge> sint (SlotCount header) then (Inl NoSuchSlot, p)
         else
           (case readSlot slotID p of
              Inl e \<Rightarrow> (Inl e, p)
            | Inr slot \<Rightarrow>
                if Size slot = 0 then (Inl EmptySlot, p)
                else if int (length newRecord) \<noteq> sint (Size slot) then (Inl SizeMismatch, p)
                else
                  let lo = sint (Offset slot); hi = sint (Offset slot + Size slot)
                  in if \<not> (0 \<le> lo \<and> lo \<le> hi \<and> hi \<le> PageSize) then (Inl Panic, p)
                     else (Inr (),
                           p\<lparr> Data := copy_bytes (Data p) lo
                                         (min (hi - lo) (int (length newRecord))) newRecord,
                              dirty := True \<rparr>)))"

definition DeleteRecord :: "int \<Rightarrow> Page \<Rightarrow> (error + unit) \<times> Page" where
  "DeleteRecord slotID p =
     (let header = readHeader p
      in if slotID \<ge> sint (SlotCount header) then (Inl NoSuchSlot, p)
         else
           (case readSlot slotID p of
              Inl e \<Rightarrow> (Inl e, p)
            | Inr slot \<Rightarrow>
                if Size slot = 0 then (Inl AlreadyEmpty, p)
                else writeSlot slotID \<lparr> Offset = 0, Size = 0 \<rparr> p))"

section \<open>Page invariants and operation sequences\<close>

definition slotCount :: "Page \<Rightarrow> int" where
  "slotCount p = sint (SlotCount (readHeader p))"

definition freeStart :: "Page \<Rightarrow> int" where
  "freeStart p = sint (FreeStart (readHeader p))"

definition freeEnd :: "Page \<Rightarrow> int" where
  "freeEnd p = sint (FreeEnd (readHeader p))"

text \<open>Entry \<open>i\<close> of the slot directory, at byte \<open>PageHeaderSize + i * SlotEntrySize\<close>,
  and the region of the record it points to.\<close>

definition slotOf :: "Page \<Rightarrow> int \<Rightarrow> SlotEntry" where
  "slotOf p i = slotAt (Data p) (PageHeaderSize + i * SlotEntrySize)"

definition slotEmpty :: "Page \<Rightarrow> int \<Rightarrow> bool" where
  "slotEmpty p i \<longleftrightarrow> Size (slotOf p i) = 0"

definition slotLo :: "Page \<Rightarrow> int \<Rightarrow> int" where
  "slotLo p i = sint (Offset (slotOf p i))"

definition slotHi :: "Page \<Rightarrow> int \<Rightarrow> int" where
  "slotHi p i = sint (Offset (slotOf p i)) + sint (Size (slotOf p i))"

text \<open>The header part of the invariant: a non-negative slot count, the slot directory
  ends where the free space starts, and the free space lies inside the page.\<close>

definition header_ok :: "Page \<Rightarrow> bool" where
  "header_ok p \<longleftrightarrow>
     0 \<le> slotCount p \<and>
     freeStart p = PageHeaderSize + slotCount p * SlotEntrySize \<and>
     freeStart p \<le> freeEnd p \<and> freeEnd p \<le> PageSize"

definition slots_ok :: "Page \<Rightarrow> bool" where
  "slots_ok p \<longleftrightarrow>
     (\<forall>i \<in> {0..<slotCount p}. \<not> slotEmpty p i \<longrightarrow>
        slotLo p i < slotHi p i \<and> freeEnd p \<le> slotLo p i \<and> slotHi p i \<le> PageSize)"

definition slots_disjoint :: "Page \<Rightarrow> bool" where
  "slots_disjoint p \<longleftrightarrow>
     (\<forall>i \<in> {0..<slotCount p}. \<forall>j \<in> {0..<slotCount p}.
        i \<noteq> j \<and> \<not> slotEmpty p i \<and> \<not> slotEmpty p j \<longrightarrow>
        slotHi p i \<le> slotLo p j \<or> slotHi p j \<le> slotLo p i)"

definition page_inv :: "Page \<Rightarrow> bool" where
  "page_inv p \<longleftrightarrow> header_ok p \<and> slots_ok p \<and> slots_disjoint p"

text \<open>
  A blank page is 4096 zero bytes: what a read returns for a page of the table file that
  lies before a written page and was never written itself (\<open>AllocatePage\<close> counts a page
  that \<open>insertRecord\<close> then fails to fill, and \<open>WriteAt\<close> beyond the end of the file
  leaves a hole). Such a page has \<open>SlotCount = FreeStart = FreeEnd = 0\<close>: it takes no
  record and has no slot. A page is good when it satisfies the page invariant or is blank.
\<close>

definition blank_page :: "Page \<Rightarrow> bool" where
  "blank_page p \<longleftrightarrow> (\<forall>i \<in> {0..<PageSize}. Data p i = 0)"

definition page_good :: "Page \<Rightarrow> bool" where
  "page_good p \<longleftrightarrow> page_inv p \<or> blank_page p"

text \<open>Sequences of page operations. A call that returns an error leaves the caller with
  the page as it is; a panic ends the run.\<close>

datatype pageop = OpInsert "byte list" | OpUpdate int "byte list" | OpDelete int

fun applyOp :: "pageop \<Rightarrow> Page \<Rightarrow> (error + unit) \<times> Page" where
  "applyOp (OpInsert r) p = (case InsertRecord r p of (Inl e, p') \<Rightarrow> (Inl e, p') | (Inr _, p') \<Rightarrow> (Inr (), p'))"
| "applyOp (OpUpdate s r) p = UpdateRecord s r p"
| "applyOp (OpDelete s) p = DeleteRecord s p"

fun runOps :: "pageop list \<Rightarrow> Page \<Rightarrow> Page option" where
  "runOps [] p = Some p"
| "runOps (x # xs) p =
     (case applyOp x p of (Inl Panic, _) \<Rightarrow> None | (_, p') \<Rightarrow> runOps xs p')"

fun slotArg :: "pageop \<Rightarrow> int" where
  "slotArg (OpInsert r) = 0"
| "slotArg (OpUpdate s r) = s"
| "slotArg (OpDelete s) = s"

section \<open>The logical-ID index\<close>

record RecordID =
  ridPageID :: int32
  ridSlotID :: int

text \<open>\<open>nextID\<close> is a Go \<open>int\<close>: the increment wraps at 64 bits.\<close>

record SimpleIndex =
  index :: "int \<rightharpoonup> RecordID"
  nextID :: int

definition NewSimpleIndex :: SimpleIndex where
  "NewSimpleIndex = \<lparr> index = Map.empty, nextID = 1 \<rparr>"

definition SimpleIndex_Insert :: "RecordID \<Rightarrow> SimpleIndex \<Rightarrow> int \<times> SimpleIndex" where
  "SimpleIndex_Insert rid si =
     (nextID si, si\<lparr> index := (index si)(nextID si \<mapsto> rid), nextID := go_int (nextID si + 1) \<rparr>)"

definition SimpleIndex_Search :: "int \<Rightarrow> SimpleIndex \<Rightarrow> RecordID option" where
  "SimpleIndex_Search lid si = index si lid"

definition SimpleIndex_Delete :: "int \<Rightarrow> SimpleIndex \<Rightarrow> (error + unit) \<times> SimpleIndex" where
  "SimpleIndex_Delete lid si =
     (if index si lid = None then (Inl NotFound, si)
      else (Inr (), si\<lparr> index := (index si)(lid := None) \<rparr>))"

definition SimpleIndex_Update :: "int \<Rightarrow> RecordID \<Rightarrow> SimpleIndex \<Rightarrow> (error + unit) \<times> SimpleIndex" where
  "SimpleIndex_Update lid rid si =
     (if index si lid = None then (Inl NotFound, si)
      else (Inr (), si\<lparr> index := (index si)(lid \<mapsto> rid) \<rparr>))"

text \<open>
  The index file \<open><table>.idx\<close> holds the pair \<open>{index, next_id}\<close>; \<open>None\<close> is "no such
  file". Writing the JSON and parsing it back are taken to succeed and to keep the pair.
  \<open>Save\<close> is what the layer's \<open>Flush\<close> (and so \<open>Close\<close>) calls on every index; \<open>Load\<close> is
  called by \<open>Open\<close> on a new index and keeps it as it is when there is no file.
\<close>

definition SimpleIndex_Save :: "SimpleIndex \<Rightarrow> SimpleIndex option" where
  "SimpleIndex_Save si = Some \<lparr> index = index si, nextID = nextID si \<rparr>"

definition SimpleIndex_Load :: "SimpleIndex option \<Rightarrow> SimpleIndex \<Rightarrow> SimpleIndex" where
  "SimpleIndex_Load idxFile si =
     (case idxFile of
        None \<Rightarrow> si
      | Some indexData \<Rightarrow> si\<lparr> index := index indexData, nextID := nextID indexData \<rparr>)"

text \<open>
  The life of a table's index: calls on the index in memory, \<open>IxSave\<close> when the layer
  flushes, and \<open>IxReopen\<close> when the layer is opened again (after \<open>Close\<close>, or after the
  process has ended without one): \<open>Open\<close> makes a new index and loads the file. The state
  is the index in memory and the index file; \<open>issuedIDs\<close> collects the IDs that the
  inserts return, in order.
\<close>

datatype indexop =
    IxInsert RecordID | IxDelete int | IxUpdate int RecordID | IxSearch int
  | IxSave | IxReopen

fun issuedIDs :: "indexop list \<Rightarrow> SimpleIndex \<times> SimpleIndex option \<Rightarrow> int list" where
  "issuedIDs [] s = []"
| "issuedIDs (IxInsert rid # xs) (si, idxFile) =
     (case SimpleIndex_Insert rid si of (lid, si') \<Rightarrow> lid # issuedIDs xs (si', idxFile))"
| "issuedIDs (IxDelete lid # xs) (si, idxFile) =
     issuedIDs xs (snd (SimpleIndex_Delete lid si), idxFile)"
| "issuedIDs (IxUpdate lid rid # xs) (si, idxFile) =
     issuedIDs xs (snd (SimpleIndex_Update lid rid si), idxFile)"
| "issuedIDs (IxSearch lid # xs) (si, idxFile) = issuedIDs xs (si, idxFile)"
| "issuedIDs (IxSave # xs) (si, idxFile) = issuedIDs xs (si, SimpleIndex_Save si)"
| "issuedIDs (IxReopen # xs) (si, idxFile) =
     issuedIDs xs (SimpleIndex_Load idxFile NewSimpleIndex, idxFile)"

fun isInsert :: "indexop \<Rightarrow> bool" where
  "isInsert (IxInsert rid) = True"
| "isInsert _ = False"

text \<open>No reopening loses an insert: \<open>insertsSaved unsaved ops\<close> holds when every
  \<open>IxReopen\<close> of \<open>ops\<close> comes with no \<open>IxInsert\<close> since the last \<open>IxSave\<close>; the flag says
  whether an insert is unsaved at the start.\<close>

fun insertsSaved :: "bool \<Rightarrow> indexop list \<Rightarrow> bool" where
  "insertsSaved unsaved [] = True"
| "insertsSaved unsaved (IxInsert rid # xs) = insertsSaved True xs"
| "insertsSaved unsaved (IxSave # xs) = insertsSaved False xs"
| "insertsSaved unsaved (IxReopen # xs) = (\<not> unsaved \<and> insertsSaved False xs)"
| "insertsSaved unsaved (x # xs) = insertsSaved unsaved xs"

section \<open>The disk manager\<close>

text \<open>
  The state of the disk manager and of the files it works on: \<open>files\<close> holds the tables
  with an open handle, \<open>pageCounter\<close> is the map of the same name, and \<open>fileData\<close> is the
  content of \<open><basePath>/<table>.tbl\<close> on the file system (\<open>None\<close>: no such file).
  Opening, creating and \<open>Stat\<close> are taken to succeed; a read or write outside the file
  fails as the operating system makes it fail.
\<close>

record DiskManager =
  files :: "string set"
  pageCounter :: "string \<rightharpoonup> int32"
  fileData :: "string \<rightharpoonup> byte list"

definition NewDiskManager :: "(string \<rightharpoonup> byte list) \<Rightarrow> DiskManager" where
  "NewDiskManager fs = \<lparr> files = {}, pageCounter = Map.empty, fileData = fs \<rparr>"

definition getFile :: "string \<Rightarrow> DiskManager \<Rightarrow> DiskManager" where
  "getFile tableName dm =
     (if tableName \<in> files dm then dm
      else
        let content = (case fileData dm tableName of None \<Rightarrow> [] | Some c \<Rightarrow> c);
            dm1 = dm\<lparr> fileData := (fileData dm)(tableName \<mapsto> content),
                      files := insert tableName (files dm) \<rparr>
        in if pageCounter dm1 tableName = None
           then dm1\<lparr> pageCounter := (pageCounter dm1)
                       (tableName \<mapsto> word_of_int (int (length content) div PageSize)) \<rparr>
           else dm1)"

definition GetPageCount :: "string \<Rightarrow> DiskManager \<Rightarrow> int32" where
  "GetPageCount tableName dm = (case pageCounter dm tableName of None \<Rightarrow> 0 | Some c \<Rightarrow> c)"

definition AllocatePage :: "string \<Rightarrow> DiskManager \<Rightarrow> int32 \<times> DiskManager" where
  "AllocatePage tableName dm =
     (let dm1 = getFile tableName dm;
          pageID = (case pageCounter dm1 tableName of None \<Rightarrow> 0 | Some c \<Rightarrow> c)
      in (pageID, dm1\<lparr> pageCounter := (pageCounter dm1)(tableName \<mapsto> pageID + 1) \<rparr>))"

definition ReadPage :: "string \<Rightarrow> int32 \<Rightarrow> DiskManager \<Rightarrow> (error + byte list) \<times> DiskManager" where
  "ReadPage tableName pageID dm =
     (let dm1 = getFile tableName dm;
          content = (case fileData dm1 tableName of None \<Rightarrow> [] | Some c \<Rightarrow> c);
          offset = sint pageID * PageSize
      in if offset < 0 \<or> int (length content) < offset + PageSize then (Inl IOError, dm1)
         else (Inr (take (nat PageSize) (drop (nat offset) content)), dm1))"

definition WritePage :: "string \<Rightarrow> int32 \<Rightarrow> byte list \<Rightarrow> DiskManager \<Rightarrow> (error + unit) \<times> DiskManager" where
  "WritePage tableName pageID data dm =
     (if int (length data) \<noteq> PageSize then (Inl IOError, dm)
      else
        let dm1 = getFile tableName dm;
            content = (case fileData dm1 tableName of None \<Rightarrow> [] | Some c \<Rightarrow> c);
            offset = sint pageID * PageSize
        in if offset < 0 then (Inl IOError, dm1)
           else (Inr (),
                 dm1\<lparr> fileData := (fileData dm1)(tableName \<mapsto>
                        take (nat offset) (content @ replicate (nat offset - length content) 0)
                        @ data @ drop (nat offset + nat PageSize) content) \<rparr>))"

section \<open>The row codec\<close>

text \<open>
  \<open>ColumnType\<close> is a string in the source: \<open>TypeOther\<close> stands for every tag that is
  none of the three constants. A value is an \<open>interface{}\<close>: nil, an \<open>int\<close> (64 bits), a
  \<open>float64\<close> (held as its IEEE-754 bit pattern, which is all the codec looks at), a
  string (its bytes), or a value of another dynamic type.
\<close>

datatype ColumnType = TypeInt | TypeFloat | TypeString | TypeOther string

record Column =
  Name :: string
  Type :: ColumnType
  Length :: int
  Nullable :: bool

record Schema =
  Columns :: "Column list"

datatype val = VNil | VInt "64 word" | VFloat "64 word" | VString "byte list" | VOther

definition PutUint16_bytes :: "16 word \<Rightarrow> byte list" where
  "PutUint16_bytes v = [ucast v, ucast (drop_bit 8 v)]"

definition PutUint32_bytes :: "32 word \<Rightarrow> byte list" where
  "PutUint32_bytes v =
     [ucast v, ucast (drop_bit 8 v), ucast (drop_bit 16 v), ucast (drop_bit 24 v)]"

definition PutUint64_bytes :: "64 word \<Rightarrow> byte list" where
  "PutUint64_bytes v =
     [ucast v, ucast (drop_bit 8 v), ucast (drop_bit 16 v), ucast (drop_bit 24 v),
      ucast (drop_bit 32 v), ucast (drop_bit 40 v), ucast (drop_bit 48 v), ucast (drop_bit 56 v)]"

definition Uint64 :: "byte list \<Rightarrow> 64 word" where
  "Uint64 b =
     ucast (b ! 0) OR push_bit 8 (ucast (b ! 1)) OR push_bit 16 (ucast (b ! 2))
     OR push_bit 24 (ucast (b ! 3)) OR push_bit 32 (ucast (b ! 4)) OR push_bit 40 (ucast (b ! 5))
     OR push_bit 48 (ucast (b ! 6)) OR push_bit 56 (ucast (b ! 7))"

definition serializeField :: "Column \<Rightarrow> val \<Rightarrow> error + byte list" where
  "serializeField col value =
     (case Type col of
        TypeInt \<Rightarrow>
          (case value of
             VInt intVal \<Rightarrow> Inr (PutUint32_bytes (ucast intVal))
           | _ \<Rightarrow> Inl TypeMismatch)
      | TypeFloat \<Rightarrow>
          (case value of
             VFloat bits \<Rightarrow> Inr (PutUint64_bytes bits)
           | _ \<Rightarrow> Inl TypeMismatch)
      | TypeString \<Rightarrow>
          (case value of
             VString strVal \<Rightarrow>
               if int (length strVal) > Length col then Inl StringTooLong
               else Inr (PutUint16_bytes (word_of_int (int (length strVal))) @ strVal)
           | _ \<Rightarrow> Inl TypeMismatch)
      | TypeOther t \<Rightarrow> Inl UnsupportedType)"

fun serializeLoop :: "Column list \<Rightarrow> val list \<Rightarrow> nat \<Rightarrow> byte list \<Rightarrow> error + byte list" where
  "serializeLoop [] values i result = Inr result"
| "serializeLoop (col # cols) values i result =
     (let value = values ! i
      in if value = VNil then
           (if \<not> Nullable col then Inl NullNotAllowed
            else serializeLoop cols values (i + 1)
                   (result[i div 8 := (result ! (i div 8)) OR push_bit (i mod 8) 1]))
         else
           (case serializeField col value of
              Inl e \<Rightarrow> Inl e
            | Inr fieldData \<Rightarrow> serializeLoop cols values (i + 1) (result @ fieldData)))"

definition Serialize :: "Schema \<Rightarrow> val list \<Rightarrow> error + byte list" where
  "Serialize schema values =
     (if length values \<noteq> length (Columns schema) then Inl ValueCountMismatch
      else serializeLoop (Columns schema) values 0
             (replicate ((length (Columns schema) + 7) div 8) 0))"

text \<open>The string slice \<open>data[2 : 2+length]\<close> adds in \<open>uint16\<close>: for a length of 65534
  or 65535 the upper bound wraps below 2 and the slice expression panics.\<close>

definition deserializeField :: "Column \<Rightarrow> byte list \<Rightarrow> error + (val \<times> nat)" where
  "deserializeField col data =
     (case Type col of
        TypeInt \<Rightarrow>
          if length data < 4 then Inl Truncated
          else Inr (VInt (ucast (Uint32 (data ! 0) (data ! 1) (data ! 2) (data ! 3))), 4)
      | TypeFloat \<Rightarrow>
          if length data < 8 then Inl Truncated
          else Inr (VFloat (Uint64 (take 8 data)), 8)
      | TypeString \<Rightarrow>
          if length data < 2 then Inl Truncated
          else
            let len = Uint16 (data ! 0) (data ! 1)
            in if length data < 2 + unat len then Inl Truncated
               else
                 let hi = unat (2 + len)
                 in if \<not> (2 \<le> hi \<and> hi \<le> length data) then Inl Panic
                    else Inr (VString (take (hi - 2) (drop 2 data)), 2 + unat len)
      | TypeOther t \<Rightarrow> Inl UnsupportedType)"

fun deserializeLoop ::
  "Column list \<Rightarrow> byte list \<Rightarrow> nat \<Rightarrow> nat \<Rightarrow> val list \<Rightarrow> error + val list" where
  "deserializeLoop [] data i offset values = Inr values"
| "deserializeLoop (col # cols) data i offset values =
     (if (data ! (i div 8)) AND push_bit (i mod 8) 1 \<noteq> 0
      then deserializeLoop cols data (i + 1) offset (values[i := VNil])
      else
        (case deserializeField col (drop offset data) of
           Inl e \<Rightarrow> Inl e
         | Inr (value, bytesRead) \<Rightarrow>
             deserializeLoop cols data (i + 1) (offset + bytesRead) (values[i := value])))"

definition Deserialize :: "Schema \<Rightarrow> byte list \<Rightarrow> error + val list" where
  "Deserialize schema data =
     (if length data = 0 then Inl EmptyData
      else if length data < (length (Columns schema) + 7) div 8 then Inl Truncated
      else deserializeLoop (Columns schema) data 0 ((length (Columns schema) + 7) div 8)
             (replicate (length (Columns schema)) VNil))"

text \<open>
  What a round trip can keep. A null needs a nullable column. An \<open>int\<close> must be one of
  the values an unsigned 32-bit field reads back (\<open>0 \<le> v < 2^32\<close>), a string must fit
  the column and its length the part of the two-byte length field that the decoder's
  slice bound can take (below 65534).
\<close>

definition value_ok :: "Column \<Rightarrow> val \<Rightarrow> bool" where
  "value_ok col v \<longleftrightarrow>
     (case v of
        VNil \<Rightarrow> Nullable col
      | VInt w \<Rightarrow> Type col = TypeInt \<and> unat w < 2 ^ 32
      | VFloat bits \<Rightarrow> Type col = TypeFloat
      | VString s \<Rightarrow> Type col = TypeString \<and> int (length s) \<le> Length col \<and> length s < 65534
      | VOther \<Rightarrow> False)"

text \<open>The null bitmap after the values from index \<open>i\<close> on have been visited, and the
  concatenated encodings of the values that are not null.\<close>

fun nullBits :: "val list \<Rightarrow> nat \<Rightarrow> byte list \<Rightarrow> byte list" where
  "nullBits [] i bm = bm"
| "nullBits (v # vs) i bm =
     nullBits vs (i + 1)
       (if v = VNil then bm[i div 8 := (bm ! (i div 8)) OR push_bit (i mod 8) 1] else bm)"

fun payload :: "Column list \<Rightarrow> val list \<Rightarrow> byte list" where
  "payload (col # cols) (v # vs) =
     (if v = VNil then []
      else (case serializeField col v of Inl e \<Rightarrow> [] | Inr fieldData \<Rightarrow> fieldData))
     @ payload cols vs"
| "payload cols vs = []"

section \<open>The storage layer\<close>

text \<open>
  The state of \<open>FileStorageLayer\<close>. The catalog is its \<open>schemas\<close> map; saving it is taken
  to succeed. A page is a pointer in the source: the cache entry and the page a caller
  works on are the same object, so the model writes the page back into the cache after
  each call that may have changed it. A missing key of \<open>indexes\<close> is the nil
  \<open>*SimpleIndex\<close>, on which every method panics when it locks the mutex.
\<close>

record FileStorageLayer =
  diskManager :: DiskManager
  catalog :: "string \<rightharpoonup> Schema"
  pageCache :: "string \<rightharpoonup> (int32 \<rightharpoonup> Page)"
  indexes :: "string \<rightharpoonup> SimpleIndex"
  isOpen :: bool

text \<open>The layer after \<open>Open\<close> on a base directory with no catalog file: no table is
  known, so no index is loaded and no cache is made.\<close>

definition openedLayer :: "(string \<rightharpoonup> byte list) \<Rightarrow> FileStorageLayer" where
  "openedLayer fs =
     \<lparr> diskManager = NewDiskManager fs, catalog = Map.empty, pageCache = Map.empty,
       indexes = Map.empty, isOpen = True \<rparr>"

definition TableExists :: "string \<Rightarrow> FileStorageLayer \<Rightarrow> bool" where
  "TableExists tableName fsl \<longleftrightarrow> catalog fsl tableName \<noteq> None"

definition CreateTable :: "string \<Rightarrow> Schema \<Rightarrow> FileStorageLayer \<Rightarrow> (error + unit) \<times> FileStorageLayer" where
  "CreateTable tableName schema fsl =
     (if \<not> isOpen fsl then (Inl NotOpen, fsl)
      else if catalog fsl tableName \<noteq> None then (Inl DuplicateTable, fsl)
      else (Inr (),
            fsl\<lparr> catalog := (catalog fsl)(tableName \<mapsto> schema),
                 indexes := (indexes fsl)(tableName \<mapsto> NewSimpleIndex),
                 pageCache := (pageCache fsl)(tableName \<mapsto> Map.empty) \<rparr>))"

definition cachedPage :: "FileStorageLayer \<Rightarrow> string \<Rightarrow> int32 \<Rightarrow> Page option" where
  "cachedPage fsl tableName pageID =
     (case pageCache fsl tableName of None \<Rightarrow> None | Some pages \<Rightarrow> pages pageID)"

text \<open>\<open>fsl.pageCache[tableName][pageID] = pg\<close>, making the inner map when it is nil.\<close>

definition cachePage :: "string \<Rightarrow> int32 \<Rightarrow> Page \<Rightarrow> FileStorageLayer \<Rightarrow> FileStorageLayer" where
  "cachePage tableName pageID pg fsl =
     fsl\<lparr> pageCache := (pageCache fsl)(tableName \<mapsto>
            (case pageCache fsl tableName of None \<Rightarrow> Map.empty | Some pages \<Rightarrow> pages)
              (pageID \<mapsto> pg)) \<rparr>"

definition getPage :: "string \<Rightarrow> int32 \<Rightarrow> FileStorageLayer \<Rightarrow> (error + Page) \<times> FileStorageLayer" where
  "getPage tableName pageID fsl =
     (case cachedPage fsl tableName pageID of
        Some page \<Rightarrow> (Inr page, fsl)
      | None \<Rightarrow>
          (case ReadPage tableName pageID (diskManager fsl) of
             (Inl e, dm) \<Rightarrow> (Inl e, fsl\<lparr> diskManager := dm \<rparr>)
           | (Inr data, dm) \<Rightarrow>
               (case LoadPage pageID data of
                  None \<Rightarrow> (Inl LoadFailed, fsl\<lparr> diskManager := dm \<rparr>)
                | Some pg \<Rightarrow> (Inr pg, cachePage tableName pageID pg (fsl\<lparr> diskManager := dm \<rparr>)))))"

text \<open>
  The first-fit loop of \<open>insertRecord\<close>,
  \<open>for pageID := int32(0); pageID < pageCount; pageID++\<close>. The counter stays inside
  \<open>[0, pageCount]\<close>, so it is an integer here and becomes the \<open>int32\<close> where it is used.
  The result is \<open>Inr None\<close> when no existing page took the record.
\<close>

function insertLoop ::
  "string \<Rightarrow> byte list \<Rightarrow> int \<Rightarrow> int \<Rightarrow> FileStorageLayer
     \<Rightarrow> (error + (int32 \<times> int) option) \<times> FileStorageLayer" where
  "insertLoop tableName recordData pageID pageCount fsl =
     (if pageID < pageCount then
        (case getPage tableName (word_of_int pageID) fsl of
           (Inl e, fsl1) \<Rightarrow> insertLoop tableName recordData (pageID + 1) pageCount fsl1
         | (Inr page, fsl1) \<Rightarrow>
             (case InsertRecord recordData page of
                (Inr slotID, page') \<Rightarrow>
                  (Inr (Some (word_of_int pageID, slotID)),
                   cachePage tableName (word_of_int pageID) page' fsl1)
              | (Inl e, page') \<Rightarrow>
                  if e = Panic
                  then (Inl Panic, cachePage tableName (word_of_int pageID) page' fsl1)
                  else insertLoop tableName recordData (pageID + 1) pageCount
                         (cachePage tableName (word_of_int pageID) page' fsl1)))
      else (Inr None, fsl))"
  by pat_completeness auto
termination
  by (relation "measure (\<lambda>(t, r, pageID, pageCount, fsl). nat (pageCount - pageID))") auto

declare insertLoop.simps [simp del]

definition insertRecord ::
  "string \<Rightarrow> byte list \<Rightarrow> FileStorageLayer \<Rightarrow> (error + (int32 \<times> int)) \<times> FileStorageLayer" where
  "insertRecord tableName recordData fsl =
     (let pageCount = GetPageCount tableName (diskManager fsl)
      in case insertLoop tableName recordData 0 (sint pageCount) fsl of
           (Inl e, fsl1) \<Rightarrow> (Inl e, fsl1)
         | (Inr (Some placed), fsl1) \<Rightarrow> (Inr placed, fsl1)
         | (Inr None, fsl1) \<Rightarrow>
             (case AllocatePage tableName (diskManager fsl1) of
                (newPageID, dm) \<Rightarrow>
                  (case InsertRecord recordData (NewPage newPageID) of
                     (Inl e, newPage) \<Rightarrow> (Inl e, fsl1\<lparr> diskManager := dm \<rparr>)
                   | (Inr slotID, newPage) \<Rightarrow>
                       (Inr (newPageID, slotID),
                        cachePage tableName newPageID newPage (fsl1\<lparr> diskManager := dm \<rparr>)))))"

definition Insert :: "string \<Rightarrow> byte list \<Rightarrow> FileStorageLayer \<Rightarrow> (error + int) \<times> FileStorageLayer" where
  "Insert tableName recordData fsl =
     (if \<not> isOpen fsl then (Inl NotOpen, fsl)
      else if \<not> TableExists tableName fsl then (Inl UnknownTable, fsl)
      else
        (case insertRecord tableName recordData fsl of
           (Inl e, fsl1) \<Rightarrow> (Inl e, fsl1)
         | (Inr (pageID, slotID), fsl1) \<Rightarrow>
             (case indexes fsl1 tableName of
                None \<Rightarrow> (Inl Panic, fsl1)
              | Some si \<Rightarrow>
                  (case SimpleIndex_Insert \<lparr> ridPageID = pageID, ridSlotID = slotID \<rparr> si of
                     (recordID, si') \<Rightarrow>
                       (Inr recordID, fsl1\<lparr> indexes := (indexes fsl1)(tableName \<mapsto> si') \<rparr>)))))"

definition Get :: "string \<Rightarrow> int \<Rightarrow> FileStorageLayer \<Rightarrow> (error + byte list) \<times> FileStorageLayer" where
  "Get tableName recordID fsl =
     (if \<not> isOpen fsl then (Inl NotOpen, fsl)
      else
        (case indexes fsl tableName of
           None \<Rightarrow> (Inl Panic, fsl)
         | Some si \<Rightarrow>
             (case SimpleIndex_Search recordID si of
                None \<Rightarrow> (Inl NotFound, fsl)
              | Some rid \<Rightarrow>
                  (case getPage tableName (ridPageID rid) fsl of
                     (Inl e, fsl1) \<Rightarrow> (Inl e, fsl1)
                   | (Inr page, fsl1) \<Rightarrow> (GetRecord (ridSlotID rid) page, fsl1)))))"

definition Update ::
  "string \<Rightarrow> int \<Rightarrow> byte list \<Rightarrow> FileStorageLayer \<Rightarrow> (error + unit) \<times> FileStorageLayer" where
  "Update tableName recordID updatedRecord fsl =
     (if \<not> isOpen fsl then (Inl NotOpen, fsl)
      else
        (case indexes fsl tableName of
           None \<Rightarrow> (Inl Panic, fsl)
         | Some si \<Rightarrow>
             (case SimpleIndex_Search recordID si of
                None \<Rightarrow> (Inl NotFound, fsl)
              | Some rid \<Rightarrow>
                  (case getPage tableName (ridPageID rid) fsl of
                     (Inl e, fsl1) \<Rightarrow> (Inl e, fsl1)
                   | (Inr page, fsl1) \<Rightarrow>
                       (case UpdateRecord (ridSlotID rid) updatedRecord page of
                          (res, page') \<Rightarrow>
                            (res, cachePage tableName (ridPageID rid) page' fsl1))))))"

definition FSL_DeleteRecord ::
  "string \<Rightarrow> int \<Rightarrow> FileStorageLayer \<Rightarrow> (error + unit) \<times> FileStorageLayer" where
  "FSL_DeleteRecord tableName recordID fsl =
     (if \<not> isOpen fsl then (Inl NotOpen, fsl)
      else
        (case indexes fsl tableName of
           None \<Rightarrow> (Inl Panic, fsl)
         | Some si \<Rightarrow>
             (case SimpleIndex_Search recordID si of
                None \<Rightarrow> (Inl NotFound, fsl)
              | Some rid \<Rightarrow>
                  (case getPage tableName (ridPageID rid) fsl of
                     (Inl e, fsl1) \<Rightarrow> (Inl e, fsl1)
                   | (Inr page, fsl1) \<Rightarrow>
                       (case DeleteRecord (ridSlotID rid) page of
                          (Inl e, page') \<Rightarrow>
                            (Inl e, cachePage tableName (ridPageID rid) page' fsl1)
                        | (Inr u, page') \<Rightarrow>
                            (case indexes fsl1 tableName of
                               None \<Rightarrow>
                                 (Inl Panic, cachePage tableName (ridPageID rid) page' fsl1)
                             | Some si1 \<Rightarrow>
                                 (case SimpleIndex_Delete recordID si1 of
                                    (res, si') \<Rightarrow>
                                      (res,
                                       (cachePage tableName (ridPageID rid) page' fsl1)
                                         \<lparr> indexes := (indexes fsl1)(tableName \<mapsto> si') \<rparr>))))))))"

text \<open>The layer of the demo driver after \<open>Open\<close> on an empty directory and
  \<open>CreateTable("users", schema)\<close>.\<close>

definition usersSchema :: Schema where
  "usersSchema =
     \<lparr> Columns =
         [\<lparr> Name = ''id'', Type = TypeInt, Length = 0, Nullable = False \<rparr>,
          \<lparr> Name = ''name'', Type = TypeString, Length = 50, Nullable = False \<rparr>,
          \<lparr> Name = ''age'', Type = TypeInt, Length = 0, Nullable = True \<rparr>] \<rparr>"

definition usersLayer :: FileStorageLayer where
  "usersLayer = snd (CreateTable ''users'' usersSchema (openedLayer Map.empty))"

section \<open>Opening, flushing and closing the layer\<close>

text \<open>
  Beside the table files of the disk manager the base directory holds the catalog file
  \<open>tables.meta\<close> and one index file \<open><table>.idx\<close> per saved index. \<open>metaFile\<close> is the
  schema map last written by \<open>CatalogManager.Save\<close> (\<open>None\<close>: no such file) and
  \<open>idxFiles\<close> gives the index last written by \<open>SimpleIndex.Save\<close> for a table. Writing
  and reading these files are taken to succeed.
\<close>

record Stored =
  metaFile :: "(string \<rightharpoonup> Schema) option"
  idxFiles :: "string \<rightharpoonup> SimpleIndex"

text \<open>
  \<open>NewFileStorageLayer\<close> makes a closed layer with empty maps. Its disk manager is nil
  until \<open>Open\<close>; here it is a disk manager that no call reaches before \<open>Open\<close> replaces
  it, and its \<open>fileData\<close> holds the table files of the directory the layer will open.
\<close>

definition NewFileStorageLayer :: "(string \<rightharpoonup> byte list) \<Rightarrow> FileStorageLayer" where
  "NewFileStorageLayer fs =
     \<lparr> diskManager = NewDiskManager fs, catalog = Map.empty, pageCache = Map.empty,
       indexes = Map.empty, isOpen = False \<rparr>"

text \<open>
  \<open>Open\<close> makes a new disk manager and a new catalog manager, loads the catalog and, for
  each table of the catalog, makes a new index, loads its file and gives the table an
  empty page cache. Entries of \<open>indexes\<close> and \<open>pageCache\<close> for other tables stay as an
  earlier \<open>Open\<close> of the same object left them.
\<close>

definition Open :: "Stored \<Rightarrow> FileStorageLayer \<Rightarrow> (error + unit) \<times> FileStorageLayer" where
  "Open st fsl =
     (if isOpen fsl then (Inl AlreadyOpen, fsl)
      else
        let schemas = (case metaFile st of None \<Rightarrow> Map.empty | Some m \<Rightarrow> m)
        in (Inr (),
            fsl\<lparr> diskManager := NewDiskManager (fileData (diskManager fsl)),
                 catalog := schemas,
                 indexes := (\<lambda>t. if schemas t \<noteq> None
                                  then Some (SimpleIndex_Load (idxFiles st t) NewSimpleIndex)
                                  else indexes fsl t),
                 pageCache := (\<lambda>t. if schemas t \<noteq> None then Some Map.empty
                                    else pageCache fsl t),
                 isOpen := True \<rparr>))"

text \<open>\<open>GetData\<close> returns the 4096 bytes of the page.\<close>

definition GetData :: "Page \<Rightarrow> byte list" where
  "GetData p = slice (Data p) 0 PageSize"

text \<open>
  \<open>Flush\<close> saves the catalog, saves every index and then, for every dirty page of the
  cache, writes the page at its place in the table file and marks it clean; it stops at
  the first failure. \<open>flushPage\<close> is the body of its page loop for the cache entry of
  \<open>tableName\<close> and \<open>pageID\<close>.
\<close>

definition flushPage :: "string \<Rightarrow> int32 \<Rightarrow> FileStorageLayer \<Rightarrow> FileStorageLayer" where
  "flushPage tableName pageID fsl =
     (case cachedPage fsl tableName pageID of
        None \<Rightarrow> fsl
      | Some page \<Rightarrow>
          if dirty page then
            (case WritePage tableName pageID (GetData page) (diskManager fsl) of
               (Inl e, dm) \<Rightarrow> fsl\<lparr> diskManager := dm \<rparr>
             | (Inr u, dm) \<Rightarrow>
                 cachePage tableName pageID (page\<lparr> dirty := False \<rparr>) (fsl\<lparr> diskManager := dm \<rparr>))
          else fsl)"

text \<open>The end of \<open>Close\<close>, after its \<open>Flush\<close>: the disk manager closes its files and
  forgets the handles, and the layer is marked as not open.\<close>

definition DiskManager_Close :: "DiskManager \<Rightarrow> DiskManager" where
  "DiskManager_Close dm = dm\<lparr> files := {} \<rparr>"

definition closeLayer :: "FileStorageLayer \<Rightarrow> FileStorageLayer" where
  "closeLayer fsl = fsl\<lparr> diskManager := DiskManager_Close (diskManager fsl), isOpen := False \<rparr>"

section \<open>The states of the engine\<close>

text \<open>
  A state of the engine is the layer object of the running program and the catalog and
  index files of its base directory (the table files are in the disk manager). The
  reachable states are those that the public operations of the layer produce from an
  empty directory:

  \<^item> \<open>start\<close>, \<open>restart\<close>: a program starts on the directory and makes its layer with
    \<open>NewFileStorageLayer\<close>; in \<open>restart\<close> an earlier program has ended, with or without
    \<open>Close\<close>, and what it had only in memory is lost;
  \<^item> \<open>opened\<close>, \<open>created\<close>, \<open>inserted\<close>, \<open>got\<close>, \<open>updated\<close>, \<open>deleted\<close>: a call of \<open>Open\<close>,
    \<open>CreateTable\<close> (which saves the catalog when it succeeds), \<open>Insert\<close>, \<open>Get\<close>,
    \<open>Update\<close>, \<open>DeleteRecord\<close>, whatever it returns;
  \<^item> \<open>scanned\<close>: \<open>Scan\<close> changes the state only through the \<open>getPage\<close> calls of its loop;
  \<^item> \<open>catalog_saved\<close>, \<open>index_saved\<close>, \<open>page_flushed\<close>: the steps of \<open>Flush\<close>, each a step
    of its own, so that a \<open>Flush\<close> that stops at a failure is covered as well;
  \<^item> \<open>closed\<close>: the end of \<open>Close\<close>, after the steps of its \<open>Flush\<close>.
\<close>

record Engine =
  layer :: FileStorageLayer
  stored :: Stored

inductive reachable :: "Engine \<Rightarrow> bool" where
  start:
    "reachable \<lparr> layer = NewFileStorageLayer Map.empty,
                 stored = \<lparr> metaFile = None, idxFiles = Map.empty \<rparr> \<rparr>"
| restart:
    "reachable w \<Longrightarrow>
     reachable (w\<lparr> layer := NewFileStorageLayer (fileData (diskManager (layer w))) \<rparr>)"
| opened:
    "reachable w \<Longrightarrow> reachable (w\<lparr> layer := snd (Open (stored w) (layer w)) \<rparr>)"
| created:
    "reachable w \<Longrightarrow>
     reachable
       \<lparr> layer = snd (CreateTable tableName schema (layer w)),
         stored = (if fst (CreateTable tableName schema (layer w)) = Inr ()
                   then (stored w)\<lparr> metaFile :=
                          Some (catalog (snd (CreateTable tableName schema (layer w)))) \<rparr>
                   else stored w) \<rparr>"
| inserted:
    "reachable w \<Longrightarrow> reachable (w\<lparr> layer := snd (Insert tableName recordData (layer w)) \<rparr>)"
| got:
    "reachable w \<Longrightarrow> reachable (w\<lparr> layer := snd (Get tableName recordID (layer w)) \<rparr>)"
| updated:
    "reachable w \<Longrightarrow>
     reachable (w\<lparr> layer := snd (Update tableName recordID updatedRecord (layer w)) \<rparr>)"
| deleted:
    "reachable w \<Longrightarrow>
     reachable (w\<lparr> layer := snd (FSL_DeleteRecord tableName recordID (layer w)) \<rparr>)"
| scanned:
    "reachable w \<Longrightarrow> isOpen (layer w) \<Longrightarrow>
     reachable (w\<lparr> layer := snd (getPage tableName pageID (layer w)) \<rparr>)"
| catalog_saved:
    "reachable w \<Longrightarrow> isOpen (layer w) \<Longrightarrow>
     reachable (w\<lparr> stored := (stored w)\<lparr> metaFile := Some (catalog (layer w)) \<rparr> \<rparr>)"
| index_saved:
    "reachable w \<Longrightarrow> isOpen (layer w) \<Longrightarrow> indexes (layer w) tableName = Some si \<Longrightarrow>
     reachable (w\<lparr> stored := (stored w)\<lparr> idxFiles :=
                       (idxFiles (stored w))(tableName := SimpleIndex_Save si) \<rparr> \<rparr>)"
| page_flushed:
    "reachable w \<Longrightarrow> isOpen (layer w) \<Longrightarrow>
     reachable (w\<lparr> layer := flushPage tableName pageID (layer w) \<rparr>)"
| closed:
    "reachable w \<Longrightarrow> isOpen (layer w) \<Longrightarrow>
     reachable (w\<lparr> layer := closeLayer (layer w) \<rparr>)"

text \<open>
  What holds in every reachable state. The content of a table file (empty when there is
  no file) is a whole number of pages, each of them good when loaded; every cached page is
  good; and the slot of every index entry, in memory and in the index files, is not
  negative.
\<close>

definition fileContent :: "DiskManager \<Rightarrow> string \<Rightarrow> byte list" where
  "fileContent dm tableName = (case fileData dm tableName of None \<Rightarrow> [] | Some c \<Rightarrow> c)"

definition image_good :: "byte list \<Rightarrow> bool" where
  "image_good data \<longleftrightarrow> (\<forall>pageID pg. LoadPage pageID data = Some pg \<longrightarrow> page_good pg)"

definition file_good :: "byte list \<Rightarrow> bool" where
  "file_good c \<longleftrightarrow>
     nat PageSize dvd length c \<and>
     (\<forall>k. (k + 1) * nat PageSize \<le> length c \<longrightarrow>
        image_good (take (nat PageSize) (drop (k * nat PageSize) c)))"

definition disk_good :: "DiskManager \<Rightarrow> bool" where
  "disk_good dm \<longleftrightarrow> (\<forall>t. file_good (fileContent dm t))"

definition cache_good :: "FileStorageLayer \<Rightarrow> bool" where
  "cache_good fsl \<longleftrightarrow> (\<forall>t pageID p. cachedPage fsl t pageID = Some p \<longrightarrow> page_good p)"

definition index_good :: "SimpleIndex \<Rightarrow> bool" where
  "index_good si \<longleftrightarrow> (\<forall>lid rid. index si lid = Some rid \<longrightarrow> 0 \<le> ridSlotID rid)"

definition layer_inv :: "FileStorageLayer \<Rightarrow> bool" where
  "layer_inv fsl \<longleftrightarrow>
     cache_good fsl \<and> disk_good (diskManager fsl) \<and>
     (\<forall>t si. indexes fsl t = Some si \<longrightarrow> index_good si)"

definition engine_inv :: "Engine \<Rightarrow> bool" where
  "engine_inv w \<longleftrightarrow>
     layer_inv (layer w) \<and> (\<forall>t si. idxFiles (stored w) t = Some si \<longrightarrow> index_good si)"

text \<open>
  The layer of the demo driver after an insert of 4075 bytes, which no page can hold, an
  insert of three bytes, and the write-back of the page that took them. \<open>AllocatePage\<close>
  has counted page 0 for the first insert, so the record of the second insert is on page 1
  and the flush writes that page alone: page 0 of the table file is a hole.
\<close>

definition holeLayer :: FileStorageLayer where
  "holeLayer =
     flushPage ''users'' 1
       (snd (Insert ''users'' [1, 2, 3]
          (snd (Insert ''users'' (replicate 4075 0) usersLayer))))"

definition holeEngine :: Engine where
  "holeEngine =
     \<lparr> layer = holeLayer,
       stored = \<lparr> metaFile = Some [''users'' \<mapsto> usersSchema], idxFiles = Map.empty \<rparr> \<rparr>"

text \<open>
  The layer of the demo driver after an insert, the end of the program without \<open>Flush\<close>
  or \<open>Close\<close>, and \<open>Open\<close> by the next program on the same directory: \<open>CreateTable\<close> has
  written the catalog file, and no index file was written.
\<close>

definition reopenedLayer :: FileStorageLayer where
  "reopenedLayer =
     snd (Open \<lparr> metaFile = Some [''users'' \<mapsto> usersSchema], idxFiles = Map.empty \<rparr>
            (NewFileStorageLayer
               (fileData (diskManager (snd (Insert ''users'' [1, 2, 3] usersLayer))))))"

text \<open>
  A table file that the engine did not write: one page whose header bytes give
  \<open>SlotCount = 0\<close>, \<open>FreeStart = 0\<close> and \<open>FreeEnd = 20\<close> (byte 8 is 20, every other byte is
  0); \<open>fpage\<close> is the page that \<open>LoadPage\<close> makes of it. \<open>foreignLayer\<close> is the layer opened
  on a directory that holds this file for the demo's table, with a catalog that lists the
  table, after a first insert. That insert takes a new page, page 1, because
  \<open>GetPageCount\<close> is 0 before the first access to the file.
\<close>

definition foreignPage :: "byte list" where
  "foreignPage = replicate 8 0 @ [20, 0] @ replicate 4086 0"

definition fpage :: "int32 \<Rightarrow> Page" where
  "fpage pageID =
     \<lparr> pagePageID = pageID, Data = (\<lambda>i. if i = 8 then 20 else 0), dirty = False \<rparr>"

definition foreignLayer :: FileStorageLayer where
  "foreignLayer =
     snd (Insert ''users'' [9]
       (snd (Open \<lparr> metaFile = Some [''users'' \<mapsto> usersSchema], idxFiles = Map.empty \<rparr>
               (NewFileStorageLayer [''users'' \<mapsto> foreignPage]))))"

section \<open>Byte order and integer facts\<close>

lemma Uint16_Put: "Uint16 (ucast w) (ucast (drop_bit 8 w)) = (w :: 16 word)"
  unfolding Uint16_def
  by (rule bit_word_eqI) (auto simp add: bit_simps)

lemma Uint32_Put:
  "Uint32 (ucast w) (ucast (drop_bit 8 w)) (ucast (drop_bit 16 w)) (ucast (drop_bit 24 w)) = (w :: 32 word)"
  unfolding Uint32_def
proof (rule bit_word_eqI)
  fix n assume "n < LENGTH(32)"
  then have n: "n < 32" by simp
  consider "n < 8" | "8 \<le> n" "n < 16" | "16 \<le> n" "n < 24" | "24 \<le> n" "n < 32"
    using n by linarith
  then show "bit (ucast (ucast w :: byte) OR push_bit 8 (ucast (ucast (drop_bit 8 w) :: byte))
          OR push_bit 16 (ucast (ucast (drop_bit 16 w) :: byte))
          OR push_bit 24 (ucast (ucast (drop_bit 24 w) :: byte)) :: 32 word) n = bit w n"
    by cases (auto simp add: bit_simps)
qed

lemma go_int_id: "- (2 ^ 63) \<le> x \<Longrightarrow> x < 2 ^ 63 \<Longrightarrow> go_int x = x"
  by (simp add: go_int_def signed_take_bit_int_eq_self)

lemma readHeader_writeHeader: "readHeader (writeHeader h p) = h"
  by (simp add: readHeader_def writeHeader_def PutUint16_def PutUint32_def Uint16_Put Uint32_Put)

lemma sint16_of_int: "- 32768 \<le> x \<Longrightarrow> x < 32768 \<Longrightarrow> sint (word_of_int x :: 16 word) = x"
  by (simp add: sint_sbintrunc' signed_take_bit_int_eq_self)

lemma sint16_bounds: "- 32768 \<le> sint (w :: 16 word) \<and> sint w < 32768"
  using sint_ge[of w] sint_lt[of w] by simp

lemma sint16_add: "- 32768 \<le> sint a + sint b \<Longrightarrow> sint a + sint b < 32768 \<Longrightarrow>
   sint (a + b :: 16 word) = sint a + sint b"
  by (simp add: sint_word_add signed_take_bit_int_eq_self)


section \<open>The slot scan\<close>

lemmas page_consts = PageSize_def PageHeaderSize_def SlotEntrySize_def

lemma slotOffset_range:
  "- 32768 \<le> s \<Longrightarrow> s \<le> 32768 \<Longrightarrow> slotOffset s = PageHeaderSize + s * SlotEntrySize"
  by (simp add: slotOffset_def go_int_id page_consts)

lemma readSlot_Inr:
  "- 32768 \<le> s \<Longrightarrow> s \<le> 32768 \<Longrightarrow> readSlot s p = Inr slot \<Longrightarrow>
     slot = slotOf p s \<and> - 4 \<le> s \<and> s \<le> 1018"
  by (auto simp add: readSlot_def slotOffset_range slotOf_def Let_def page_consts split: if_splits)

lemma readSlot_ok:
  "0 \<le> s \<Longrightarrow> s \<le> 1018 \<Longrightarrow> readSlot s p = Inr (slotOf p s)"
  by (simp add: readSlot_def slotOffset_range slotOf_def Let_def page_consts)

lemma findSlot_spec:
  "0 \<le> i \<Longrightarrow> n \<le> 32768 \<Longrightarrow> findSlot p i n = Inr k \<Longrightarrow>
     (k = - 1 \<and> (\<forall>j. i \<le> j \<and> j < n \<longrightarrow> \<not> slotEmpty p j)) \<or>
     (i \<le> k \<and> k < n \<and> k \<le> 1018 \<and> slotEmpty p k \<and> (\<forall>j. i \<le> j \<and> j < k \<longrightarrow> \<not> slotEmpty p j))"
proof (induction p i n rule: findSlot.induct)
  case (1 p i n)
  show ?case
  proof (cases "i < n")
    case False
    with "1.prems" show ?thesis by (auto simp add: findSlot.simps)
  next
    case True
    from "1.prems" True obtain slot where rs: "readSlot i p = Inr slot"
      by (cases "readSlot i p") (auto simp add: findSlot.simps[of p i n])
    from readSlot_Inr[OF _ _ rs] "1.prems" True
    have slot: "slot = slotOf p i" and i1018: "i \<le> 1018" by auto
    show ?thesis
    proof (cases "Size slot = 0")
      case True
      with rs \<open>i < n\<close> "1.prems" have "k = i" by (simp add: findSlot.simps[of p i n])
      with True slot \<open>i < n\<close> i1018 show ?thesis by (auto simp add: slotEmpty_def)
    next
      case False
      with rs \<open>i < n\<close> "1.prems" have rec: "findSlot p (i + 1) n = Inr k"
        by (simp add: findSlot.simps[of p i n])
      have ne: "\<not> slotEmpty p i" using False slot by (simp add: slotEmpty_def)
      from "1.IH"[OF \<open>i < n\<close> rs False _ _ rec] "1.prems"
      have IH: "(k = - 1 \<and> (\<forall>j. i + 1 \<le> j \<and> j < n \<longrightarrow> \<not> slotEmpty p j)) \<or>
         (i + 1 \<le> k \<and> k < n \<and> k \<le> 1018 \<and> slotEmpty p k \<and> (\<forall>j. i + 1 \<le> j \<and> j < k \<longrightarrow> \<not> slotEmpty p j))"
        by simp
      then show ?thesis
      proof
        assume a: "k = - 1 \<and> (\<forall>j. i + 1 \<le> j \<and> j < n \<longrightarrow> \<not> slotEmpty p j)"
        have "\<not> slotEmpty p j" if "i \<le> j \<and> j < n" for j
          using that a ne by (cases "j = i") auto
        with a show ?thesis by blast
      next
        assume a: "i + 1 \<le> k \<and> k < n \<and> k \<le> 1018 \<and> slotEmpty p k \<and> (\<forall>j. i + 1 \<le> j \<and> j < k \<longrightarrow> \<not> slotEmpty p j)"
        have "\<not> slotEmpty p j" if "i \<le> j \<and> j < k" for j
          using that a ne by (cases "j = i") auto
        with a show ?thesis by auto
      qed
    qed
  qed
qed

lemma findSlot_total:
  "0 \<le> i \<Longrightarrow> n \<le> 1019 \<Longrightarrow> \<exists>k. findSlot p i n = Inr k"
proof (induction p i n rule: findSlot.induct)
  case (1 p i n)
  show ?case
  proof (cases "i < n")
    case False
    then show ?thesis by (simp add: findSlot.simps)
  next
    case True
    with "1.prems" have rs: "readSlot i p = Inr (slotOf p i)" by (simp add: readSlot_ok)
    show ?thesis
    proof (cases "Size (slotOf p i) = 0")
      case True
      with rs \<open>i < n\<close> show ?thesis by (simp add: findSlot.simps[of p i n])
    next
      case False
      from "1.IH"[OF \<open>i < n\<close> rs False] "1.prems" obtain k where "findSlot p (i + 1) n = Inr k" by auto
      with rs \<open>i < n\<close> False show ?thesis by (simp add: findSlot.simps[of p i n])
    qed
  qed
qed


section \<open>Writes that leave other bytes alone\<close>

lemma PutUint16_other: "i < off \<or> off + 2 \<le> i \<Longrightarrow> PutUint16 d off v i = d i"
  by (auto simp add: PutUint16_def)

lemma PutUint32_other: "i < off \<or> off + 4 \<le> i \<Longrightarrow> PutUint32 d off v i = d i"
  by (auto simp add: PutUint32_def)

lemma copy_bytes_other: "i < lo \<or> lo + n \<le> i \<Longrightarrow> copy_bytes d lo n src i = d i"
  by (auto simp add: copy_bytes_def)

lemma copy_bytes_inside: "lo \<le> i \<Longrightarrow> i < lo + n \<Longrightarrow> copy_bytes d lo n src i = src ! nat (i - lo)"
  by (simp add: copy_bytes_def)

lemma slotAt_cong: "(\<And>i. off \<le> i \<Longrightarrow> i < off + 4 \<Longrightarrow> d' i = d i) \<Longrightarrow> slotAt d' off = slotAt d off"
  by (simp add: slotAt_def)

lemma slotAt_written: "slotAt (PutUint16 (PutUint16 d off a) (off + 2) b) off = \<lparr> Offset = a, Size = b \<rparr>"
  by (simp add: slotAt_def PutUint16_def Uint16_Put)

lemma slotAt_slot_other:
  "off' + 4 \<le> off \<or> off + 4 \<le> off' \<Longrightarrow>
     slotAt (PutUint16 (PutUint16 d off' a) (off' + 2) b) off = slotAt d off"
  by (rule slotAt_cong) (auto simp add: PutUint16_other)

lemma Data_writeHeader_other: "18 \<le> i \<Longrightarrow> Data (writeHeader h p) i = Data p i"
  by (simp add: writeHeader_def PutUint16_other PutUint32_other)

lemma slotAt_writeHeader: "18 \<le> off \<Longrightarrow> slotAt (Data (writeHeader h p)) off = slotAt (Data p) off"
  by (rule slotAt_cong) (simp add: Data_writeHeader_other)

lemma readHeader_cong: "(\<And>i. 0 \<le> i \<Longrightarrow> i < 18 \<Longrightarrow> Data p' i = Data p i) \<Longrightarrow> readHeader p' = readHeader p"
  by (simp add: readHeader_def)

lemma header_fields_writeHeader:
  "slotCount (writeHeader h p) = sint (SlotCount h)"
  "freeStart (writeHeader h p) = sint (FreeStart h)"
  "freeEnd (writeHeader h p) = sint (FreeEnd h)"
  by (simp_all add: slotCount_def freeStart_def freeEnd_def readHeader_writeHeader)

text \<open>What a successful \<open>InsertRecord\<close> has done, read off the code.\<close>

lemma InsertRecord_Inr:
  assumes "InsertRecord r p = (Inr sid, p')"
  obtains found where
    "findSlot p 0 (slotCount p) = Inr found"
    "sid = (if found = - 1 then slotCount p else found)"
    "int (length r) \<le> freeEnd p - freeStart p - SlotEntrySize"
    "0 \<le> freeEnd p - int (length r)" "freeEnd p \<le> PageSize"
    "0 \<le> slotOffset sid" "slotOffset sid + 4 \<le> PageSize"
    "p' = writeHeader
            ((if found = - 1
              then (readHeader p)\<lparr> SlotCount := SlotCount (readHeader p) + 1,
                     FreeStart := FreeStart (readHeader p) + word_of_int SlotEntrySize \<rparr>
              else readHeader p)\<lparr> FreeEnd := word_of_int (freeEnd p - int (length r)) \<rparr>)
            (p\<lparr> Data := PutUint16 (PutUint16
                     (copy_bytes (Data p) (freeEnd p - int (length r)) (int (length r)) r)
                     (slotOffset sid) (word_of_int (freeEnd p - int (length r))))
                     (slotOffset sid + 2) (word_of_int (int (length r))),
                dirty := True \<rparr>)"
  using assms
  by (auto simp add: InsertRecord_def writeSlot_def Let_def slotCount_def freeStart_def freeEnd_def
      split: if_splits sum.splits prod.splits)


section \<open>The effect of InsertRecord\<close>

lemma header_okD:
  assumes "header_ok p"
  shows "0 \<le> slotCount p" "freeStart p = 18 + 4 * slotCount p" "freeStart p \<le> freeEnd p"
    "freeEnd p \<le> 4096" "slotCount p \<le> 1019"
  using assms by (auto simp add: header_ok_def page_consts)

lemma word16_of_int_eq_0: "0 \<le> x \<Longrightarrow> x < 65536 \<Longrightarrow> (word_of_int x :: 16 word) = 0 \<longleftrightarrow> x = 0"
  using zdvd_imp_le[of 65536 x] by (auto simp add: word_of_int_eq_0_iff)

lemma InsertRecord_effect:
  assumes ok: "header_ok p" and ins: "InsertRecord r p = (Inr sid, p')"
  shows "0 \<le> sid \<and> sid \<le> slotCount p \<and> sid \<le> 1018"
    and "slotCount p' = (if sid = slotCount p then slotCount p + 1 else slotCount p)"
    and "freeStart p' = PageHeaderSize + slotCount p' * SlotEntrySize"
    and "freeEnd p' = freeEnd p - int (length r)"
    and "int (length r) \<le> freeEnd p - freeStart p - SlotEntrySize"
    and "sid < slotCount p \<longrightarrow> slotEmpty p sid \<and> (\<forall>j. 0 \<le> j \<and> j < sid \<longrightarrow> \<not> slotEmpty p j)"
    and "sid = slotCount p \<longrightarrow> (\<forall>j. 0 \<le> j \<and> j < slotCount p \<longrightarrow> \<not> slotEmpty p j)"
    and "\<forall>j. 0 \<le> j \<and> j < slotCount p \<and> j \<noteq> sid \<longrightarrow> slotOf p' j = slotOf p j"
    and "slotOf p' sid = \<lparr> Offset = word_of_int (freeEnd p - int (length r)),
                           Size = word_of_int (int (length r)) \<rparr>"
    and "\<forall>i. freeEnd p - int (length r) \<le> i \<and> i < freeEnd p \<longrightarrow>
             Data p' i = r ! nat (i - (freeEnd p - int (length r)))"
proof -
  note hk = header_okD[OF ok]
  from ins obtain found where
    fs: "findSlot p 0 (slotCount p) = Inr found" and
    sid: "sid = (if found = - 1 then slotCount p else found)" and
    len: "int (length r) \<le> freeEnd p - freeStart p - SlotEntrySize" and
    so: "0 \<le> slotOffset sid" "slotOffset sid + 4 \<le> PageSize" and
    p': "p' = writeHeader
            ((if found = - 1
              then (readHeader p)\<lparr> SlotCount := SlotCount (readHeader p) + 1,
                     FreeStart := FreeStart (readHeader p) + word_of_int SlotEntrySize \<rparr>
              else readHeader p)\<lparr> FreeEnd := word_of_int (freeEnd p - int (length r)) \<rparr>)
            (p\<lparr> Data := PutUint16 (PutUint16
                     (copy_bytes (Data p) (freeEnd p - int (length r)) (int (length r)) r)
                     (slotOffset sid) (word_of_int (freeEnd p - int (length r))))
                     (slotOffset sid + 2) (word_of_int (int (length r))),
                dirty := True \<rparr>)"
    by (rule InsertRecord_Inr)
  from findSlot_spec[OF _ _ fs] hk
  have found: "(found = - 1 \<and> (\<forall>j. 0 \<le> j \<and> j < slotCount p \<longrightarrow> \<not> slotEmpty p j)) \<or>
     (0 \<le> found \<and> found < slotCount p \<and> slotEmpty p found \<and> (\<forall>j. 0 \<le> j \<and> j < found \<longrightarrow> \<not> slotEmpty p j))"
    by auto
  with sid hk have sid0: "0 \<le> sid" "sid \<le> slotCount p" by auto
  with hk have soe: "slotOffset sid = 18 + 4 * sid"
    by (simp add: slotOffset_range page_consts)
  with so have sid1018: "sid \<le> 1018" by (simp add: page_consts)
  show "0 \<le> sid \<and> sid \<le> slotCount p \<and> sid \<le> 1018" using sid0 sid1018 by simp
  show len': "int (length r) \<le> freeEnd p - freeStart p - SlotEntrySize" by (rule len)
  have fm1: "found = - 1 \<longleftrightarrow> sid = slotCount p" using found sid by auto
  show "sid < slotCount p \<longrightarrow> slotEmpty p sid \<and> (\<forall>j. 0 \<le> j \<and> j < sid \<longrightarrow> \<not> slotEmpty p j)"
    using found sid by auto
  show "sid = slotCount p \<longrightarrow> (\<forall>j. 0 \<le> j \<and> j < slotCount p \<longrightarrow> \<not> slotEmpty p j)"
    using found sid by auto
  have ro: "0 \<le> freeEnd p - int (length r)" "freeEnd p - int (length r) \<le> 4096"
    "18 + 4 * slotCount p + 4 \<le> freeEnd p - int (length r)"
    using len hk by (simp_all add: page_consts)
  have sc1: "sint (SlotCount (readHeader p) + 1) = slotCount p + 1"
    using hk sint16_add[of "SlotCount (readHeader p)" 1] by (simp add: slotCount_def)
  have fs4: "sint (FreeStart (readHeader p) + word_of_int SlotEntrySize) = freeStart p + 4"
    using hk sint16_add[of "FreeStart (readHeader p)" 4] by (simp add: freeStart_def page_consts)
  show sc': "slotCount p' = (if sid = slotCount p then slotCount p + 1 else slotCount p)"
    using fm1 sc1 by (simp add: p' header_fields_writeHeader) (simp add: slotCount_def)
  show "freeStart p' = PageHeaderSize + slotCount p' * SlotEntrySize"
    unfolding sc' using fm1 fs4 hk 
    by (simp add: p' header_fields_writeHeader page_consts) (simp add: freeStart_def)
  have "freeEnd p' = sint (word_of_int (freeEnd p - int (length r)) :: 16 word)"
    unfolding p' header_fields_writeHeader by simp
  also have "\<dots> = freeEnd p - int (length r)"
    by (rule sint16_of_int) (use ro in auto)
  finally show "freeEnd p' = freeEnd p - int (length r)" .
  show "\<forall>j. 0 \<le> j \<and> j < slotCount p \<and> j \<noteq> sid \<longrightarrow> slotOf p' j = slotOf p j"
  proof (intro allI impI)
    fix j assume j: "0 \<le> j \<and> j < slotCount p \<and> j \<noteq> sid"
    have "Data p' i = Data p i" if i: "18 + 4 * j \<le> i" "i < 18 + 4 * j + 4" for i
    proof -
      from j consider "j < sid" | "sid < j" by linarith
      then have "i < 18 + 4 * sid \<or> 18 + 4 * sid + 4 \<le> i"
        using i by cases auto
      moreover have "i < freeEnd p - int (length r)" using i j ro by simp
      moreover have "18 \<le> i" using i j by simp
      ultimately show ?thesis
        by (auto simp add: p' Data_writeHeader_other soe PutUint16_other copy_bytes_other)
    qed
    then show "slotOf p' j = slotOf p j"
      unfolding slotOf_def by (intro slotAt_cong) (simp add: page_consts)
  qed
  have ge: "18 \<le> slotOffset sid" using soe sid0 by simp
  have "slotAt (Data p') (slotOffset sid) = \<lparr> Offset = word_of_int (freeEnd p - int (length r)),
                           Size = word_of_int (int (length r)) \<rparr>"
    unfolding p' by (simp add: slotAt_writeHeader[OF ge] slotAt_written)
  then show "slotOf p' sid = \<lparr> Offset = word_of_int (freeEnd p - int (length r)),
                           Size = word_of_int (int (length r)) \<rparr>"
    by (simp add: slotOf_def soe page_consts mult.commute)
  show "\<forall>i. freeEnd p - int (length r) \<le> i \<and> i < freeEnd p \<longrightarrow>
             Data p' i = r ! nat (i - (freeEnd p - int (length r)))"
  proof (intro allI impI)
    fix i assume i: "freeEnd p - int (length r) \<le> i \<and> i < freeEnd p"
    with ro sid0 have "18 \<le> i" "18 + 4 * sid + 2 \<le> i" "20 + 4 * sid + 2 \<le> i" by simp_all
    then show "Data p' i = r ! nat (i - (freeEnd p - int (length r)))"
      using i by (auto simp add: p' Data_writeHeader_other soe PutUint16_other copy_bytes_inside)
  qed
qed

lemma InsertRecord_slot_fields:
  assumes ok: "header_ok p" and ins: "InsertRecord r p = (Inr sid, p')"
  shows "slotEmpty p' sid \<longleftrightarrow> r = []"
    and "slotLo p' sid = freeEnd p - int (length r)"
    and "slotHi p' sid = freeEnd p"
    and "0 \<le> j \<Longrightarrow> j < slotCount p \<Longrightarrow> j \<noteq> sid \<Longrightarrow> slotEmpty p' j = slotEmpty p j"
    and "0 \<le> j \<Longrightarrow> j < slotCount p \<Longrightarrow> j \<noteq> sid \<Longrightarrow> slotLo p' j = slotLo p j"
    and "0 \<le> j \<Longrightarrow> j < slotCount p \<Longrightarrow> j \<noteq> sid \<Longrightarrow> slotHi p' j = slotHi p j"
proof -
  note e = InsertRecord_effect[OF ok ins]
  note hk = header_okD[OF ok]
  have len: "0 \<le> int (length r)" "int (length r) \<le> 4096" "0 \<le> freeEnd p - int (length r)"
    "freeEnd p - int (length r) \<le> 4096"
    using e(5) hk by (simp_all add: page_consts)
  have s1: "sint (word_of_int (int (length r)) :: 16 word) = int (length r)"
    by (rule sint16_of_int) (use len in auto)
  have s2: "sint (word_of_int (freeEnd p - int (length r)) :: 16 word) = freeEnd p - int (length r)"
    by (rule sint16_of_int) (use len in auto)
  have z: "(word_of_int (int (length r)) :: 16 word) = 0 \<longleftrightarrow> int (length r) = 0"
    by (rule word16_of_int_eq_0) (use len in auto)
  show "slotEmpty p' sid \<longleftrightarrow> r = []"
    unfolding slotEmpty_def e(9) using z by simp
  show "slotLo p' sid = freeEnd p - int (length r)"
    unfolding slotLo_def e(9) using s2 by simp
  show "slotHi p' sid = freeEnd p"
    unfolding slotHi_def e(9) using s1 s2 by simp
  show "0 \<le> j \<Longrightarrow> j < slotCount p \<Longrightarrow> j \<noteq> sid \<Longrightarrow> slotEmpty p' j = slotEmpty p j"
    using e(8) by (simp add: slotEmpty_def)
  show "0 \<le> j \<Longrightarrow> j < slotCount p \<Longrightarrow> j \<noteq> sid \<Longrightarrow> slotLo p' j = slotLo p j"
    using e(8) by (simp add: slotLo_def)
  show "0 \<le> j \<Longrightarrow> j < slotCount p \<Longrightarrow> j \<noteq> sid \<Longrightarrow> slotHi p' j = slotHi p j"
    using e(8) by (simp add: slotHi_def)
qed

lemma InsertRecord_page_inv:
  assumes inv: "page_inv p" and ins: "InsertRecord r p = (Inr sid, p')"
  shows "page_inv p'"
proof -
  from inv have ok: "header_ok p" and so: "slots_ok p" and sd: "slots_disjoint p"
    by (simp_all add: page_inv_def)
  note e = InsertRecord_effect[OF ok ins]
  note f = InsertRecord_slot_fields[OF ok ins]
  note hk = header_okD[OF ok]
  have old: "j < slotCount p" if "j < slotCount p'" "j \<noteq> sid" for j
    using that e(2) by (auto split: if_splits)
  have okp: "slotLo p j < slotHi p j \<and> freeEnd p \<le> slotLo p j \<and> slotHi p j \<le> PageSize"
    if "0 \<le> j" "j < slotCount p" "\<not> slotEmpty p j" for j
    using so that by (simp add: slots_ok_def)
  have "header_ok p'"
    unfolding header_ok_def using e(1,2,3,4,5) hk by (auto simp add: page_consts)
  moreover have "slots_ok p'"
    unfolding slots_ok_def
  proof (intro ballI impI)
    fix j assume j: "j \<in> {0..<slotCount p'}" and ne: "\<not> slotEmpty p' j"
    show "slotLo p' j < slotHi p' j \<and> freeEnd p' \<le> slotLo p' j \<and> slotHi p' j \<le> PageSize"
    proof (cases "j = sid")
      case True
      with ne f(1) have "0 < int (length r)" by simp
      with True show ?thesis using f(2,3) e(4) hk by (simp add: page_consts)
    next
      case False
      with j old have jn: "0 \<le> j" "j < slotCount p" by auto
      with False ne have "\<not> slotEmpty p j" by (simp add: f(4))
      from okp[OF jn this] show ?thesis
        using jn False e(4) by (simp add: f(5,6))
    qed
  qed
  moreover have "slots_disjoint p'"
    unfolding slots_disjoint_def
  proof (intro ballI impI)
    fix i j assume i: "i \<in> {0..<slotCount p'}" and j: "j \<in> {0..<slotCount p'}"
      and h: "i \<noteq> j \<and> \<not> slotEmpty p' i \<and> \<not> slotEmpty p' j"
    have new_old: "slotHi p' a \<le> slotLo p' b \<or> slotHi p' b \<le> slotLo p' a"
      if "a = sid" "b \<noteq> sid" "0 \<le> b" "b < slotCount p'" "\<not> slotEmpty p' b" for a b
    proof -
      from that old have bn: "0 \<le> b" "b < slotCount p" by auto
      with that have "\<not> slotEmpty p b" by (simp add: f(4))
      from okp[OF bn this] have "freeEnd p \<le> slotLo p' b" using that bn by (simp add: f(5))
      with that show ?thesis by (simp add: f(3))
    qed
    show "slotHi p' i \<le> slotLo p' j \<or> slotHi p' j \<le> slotLo p' i"
    proof (cases "i = sid")
      case True
      with h j new_old[of i j] show ?thesis by auto
    next
      case False
      note isid = this
      show ?thesis
      proof (cases "j = sid")
        case True
        with h i isid new_old[of j i] show ?thesis by auto
      next
        case False
        with i j isid old have ij: "0 \<le> i" "i < slotCount p" "0 \<le> j" "j < slotCount p" by auto
        with isid False h have "\<not> slotEmpty p i" "\<not> slotEmpty p j" by (simp_all add: f(4))
        with sd ij h have "slotHi p i \<le> slotLo p j \<or> slotHi p j \<le> slotLo p i"
          by (simp add: slots_disjoint_def)
        with ij isid False show ?thesis by (simp add: f(5,6))
      qed
    qed
  qed
  ultimately show ?thesis by (simp add: page_inv_def)
qed


section \<open>The effect of DeleteRecord and UpdateRecord\<close>

lemma slotOf_eq: "slotOf p i = slotAt (Data p) (18 + 4 * i)"
  by (simp add: slotOf_def page_consts mult.commute)

lemma slotAt_written2:
  "off2 = off + 2 \<Longrightarrow> slotAt (PutUint16 (PutUint16 d off a) off2 b) off = \<lparr> Offset = a, Size = b \<rparr>"
  by (simp add: slotAt_written)

lemma slotAt_slot_other2:
  "off2 = off' + 2 \<Longrightarrow> off' + 4 \<le> off \<or> off + 4 \<le> off' \<Longrightarrow>
     slotAt (PutUint16 (PutUint16 d off' a) off2 b) off = slotAt d off"
  by (simp add: slotAt_slot_other)

lemma DeleteRecord_Inr:
  assumes "DeleteRecord sid p = (Inr u, p')" and "0 \<le> sid"
  shows "sid < slotCount p" and "sid \<le> 1018" and "\<not> slotEmpty p sid"
    and "p' = p\<lparr> Data := PutUint16 (PutUint16 (Data p) (18 + 4 * sid) 0) (18 + 4 * sid + 2) 0,
                   dirty := True \<rparr>"
proof -
  from assms have lt: "sid < slotCount p"
    by (auto simp add: DeleteRecord_def Let_def slotCount_def split: if_splits)
  have "slotCount p \<le> 32767" using sint16_bounds[of "SlotCount (readHeader p)"] by (simp add: slotCount_def)
  with lt assms(2) have so: "slotOffset sid = 18 + 4 * sid"
    by (simp add: slotOffset_range page_consts)
  from assms lt obtain slot where rs: "readSlot sid p = Inr slot" and ne: "Size slot \<noteq> 0"
    and ws: "writeSlot sid \<lparr> Offset = 0, Size = 0 \<rparr> p = (Inr u, p')"
    by (auto simp add: DeleteRecord_def Let_def slotCount_def split: if_splits sum.splits)
  from rs so have "slot = slotOf p sid" and le: "sid \<le> 1018"
    by (auto simp add: readSlot_def Let_def slotOf_eq page_consts split: if_splits)
  with ne show "\<not> slotEmpty p sid" by (simp add: slotEmpty_def)
  show "sid < slotCount p" by (rule lt)
  show "sid \<le> 1018" by (rule le)
  from ws so show "p' = p\<lparr> Data := PutUint16 (PutUint16 (Data p) (18 + 4 * sid) 0) (18 + 4 * sid + 2) 0,
                   dirty := True \<rparr>"
    by (auto simp add: writeSlot_def Let_def split: if_splits)
qed

lemma DeleteRecord_effect:
  assumes del: "DeleteRecord sid p = (Inr u, p')" and sid: "0 \<le> sid"
  shows "readHeader p' = readHeader p"
    and "slotOf p' sid = \<lparr> Offset = 0, Size = 0 \<rparr>"
    and "\<forall>j. 0 \<le> j \<and> j \<noteq> sid \<longrightarrow> slotOf p' j = slotOf p j"
proof -
  note d = DeleteRecord_Inr[OF del sid]
  show "readHeader p' = readHeader p"
    by (rule readHeader_cong) (use sid in \<open>simp add: d(4) PutUint16_other\<close>)
  show "slotOf p' sid = \<lparr> Offset = 0, Size = 0 \<rparr>"
    unfolding slotOf_eq d(4) by (simp add: slotAt_written2)
  show "\<forall>j. 0 \<le> j \<and> j \<noteq> sid \<longrightarrow> slotOf p' j = slotOf p j"
  proof (intro allI impI)
    fix j assume j: "0 \<le> j \<and> j \<noteq> sid"
    then consider "j < sid" | "sid < j" by linarith
    then have "18 + 4 * sid + 4 \<le> 18 + 4 * j \<or> 18 + 4 * j + 4 \<le> 18 + 4 * sid"
      by cases auto
    then show "slotOf p' j = slotOf p j"
      unfolding slotOf_eq d(4) by (simp add: slotAt_slot_other2)
  qed
qed

lemma DeleteRecord_page_inv:
  assumes inv: "page_inv p" and del: "DeleteRecord sid p = (Inr u, p')" and sid: "0 \<le> sid"
  shows "page_inv p'"
proof -
  note e = DeleteRecord_effect[OF del sid]
  have h: "slotCount p' = slotCount p" "freeStart p' = freeStart p" "freeEnd p' = freeEnd p"
    by (simp_all add: slotCount_def freeStart_def freeEnd_def e(1))
  have se: "slotEmpty p' sid" by (simp add: slotEmpty_def e(2))
  have oth: "slotEmpty p' j = slotEmpty p j" "slotLo p' j = slotLo p j" "slotHi p' j = slotHi p j"
    if "0 \<le> j" "j \<noteq> sid" for j
    using that e(3) by (simp_all add: slotEmpty_def slotLo_def slotHi_def)
  from inv have "header_ok p'" by (simp add: page_inv_def header_ok_def h)
  moreover have "slots_ok p'"
    unfolding slots_ok_def
  proof (intro ballI impI)
    fix j assume j: "j \<in> {0..<slotCount p'}" and ne: "\<not> slotEmpty p' j"
    with se have "j \<noteq> sid" by auto
    with j ne inv show "slotLo p' j < slotHi p' j \<and> freeEnd p' \<le> slotLo p' j \<and> slotHi p' j \<le> PageSize"
      by (simp add: oth h page_inv_def slots_ok_def)
  qed
  moreover have "slots_disjoint p'"
    unfolding slots_disjoint_def
  proof (intro ballI impI)
    fix i j assume i: "i \<in> {0..<slotCount p'}" and j: "j \<in> {0..<slotCount p'}"
      and c: "i \<noteq> j \<and> \<not> slotEmpty p' i \<and> \<not> slotEmpty p' j"
    with se have "i \<noteq> sid" "j \<noteq> sid" by auto
    with i j c inv show "slotHi p' i \<le> slotLo p' j \<or> slotHi p' j \<le> slotLo p' i"
      by (simp add: oth h page_inv_def slots_disjoint_def)
  qed
  ultimately show ?thesis by (simp add: page_inv_def)
qed

lemma slot_region:
  assumes inv: "page_inv p" and sid: "0 \<le> sid" "sid < slotCount p" and ne: "\<not> slotEmpty p sid"
  shows "sid \<le> 1018" and "readSlot sid p = Inr (slotOf p sid)"
    and "PageHeaderSize + slotCount p * SlotEntrySize \<le> slotLo p sid"
    and "slotLo p sid < slotHi p sid" and "slotHi p sid \<le> PageSize"
    and "sint (Offset (slotOf p sid) + Size (slotOf p sid)) = slotHi p sid"
    and "0 < sint (Size (slotOf p sid))"
proof -
  from inv have ok: "header_ok p" and so: "slots_ok p" by (simp_all add: page_inv_def)
  note hk = header_okD[OF ok]
  show le: "sid \<le> 1018" using hk sid by simp
  show "readSlot sid p = Inr (slotOf p sid)" using sid le by (simp add: readSlot_ok)
  from so sid ne have r: "slotLo p sid < slotHi p sid" "freeEnd p \<le> slotLo p sid" "slotHi p sid \<le> PageSize"
    by (simp_all add: slots_ok_def)
  show "slotLo p sid < slotHi p sid" "slotHi p sid \<le> PageSize" by (rule r)+
  show "PageHeaderSize + slotCount p * SlotEntrySize \<le> slotLo p sid"
    using r hk by (simp add: page_consts)
  have "sint (Offset (slotOf p sid) + Size (slotOf p sid)) =
        sint (Offset (slotOf p sid)) + sint (Size (slotOf p sid))"
    by (rule sint16_add) (use r hk in \<open>simp_all add: slotLo_def slotHi_def page_consts\<close>)
  then show "sint (Offset (slotOf p sid) + Size (slotOf p sid)) = slotHi p sid"
    by (simp add: slotHi_def)
  show "0 < sint (Size (slotOf p sid))" using r by (simp add: slotLo_def slotHi_def)
qed

lemma UpdateRecord_valid:
  assumes inv: "page_inv p" and sid: "0 \<le> sid" "sid < slotCount p" and ne: "\<not> slotEmpty p sid"
  shows "UpdateRecord sid r p =
     (if int (length r) \<noteq> sint (Size (slotOf p sid)) then (Inl SizeMismatch, p)
      else (Inr (), p\<lparr> Data := copy_bytes (Data p) (slotLo p sid) (int (length r)) r,
                        dirty := True \<rparr>))"
proof -
  note s = slot_region[OF inv sid ne]
  from inv have ok: "header_ok p" by (simp add: page_inv_def)
  note hk = header_okD[OF ok]
  have lo0: "0 \<le> slotLo p sid" using s(3) hk by (simp add: page_consts)
  have nz: "Size (slotOf p sid) \<noteq> 0" using ne by (simp add: slotEmpty_def)
  have lt: "\<not> sint (SlotCount (readHeader p)) \<le> sid" using sid by (simp add: slotCount_def)
  show ?thesis
  proof (cases "int (length r) = sint (Size (slotOf p sid))")
    case False
    then show ?thesis using lt nz by (simp add: UpdateRecord_def s(2))
  next
    case True
    have m: "min (slotHi p sid - slotLo p sid) (sint (Size (slotOf p sid))) = sint (Size (slotOf p sid))"
      by (simp add: slotHi_def slotLo_def)
    have lo: "sint (Offset (slotOf p sid)) = slotLo p sid" by (simp add: slotLo_def)
    from True lt nz lo0 s(4,5) show ?thesis
      by (simp add: UpdateRecord_def s(2) Let_def s(6) lo m del: min.absorb2 min.absorb4)
  qed
qed

lemma UpdateRecord_fail_unchanged:
  "UpdateRecord sid r p = (Inl e, p') \<Longrightarrow> p' = p"
  by (auto simp add: UpdateRecord_def Let_def split: if_splits sum.splits)

lemma DeleteRecord_fail_unchanged:
  "DeleteRecord sid p = (Inl e, p') \<Longrightarrow> e \<noteq> Panic \<Longrightarrow> p' = p"
  by (auto simp add: DeleteRecord_def writeSlot_def Let_def split: if_splits sum.splits)

lemma findSlot_error: "findSlot p i n = Inl e \<Longrightarrow> e = Panic"
proof (induction p i n rule: findSlot.induct)
  case (1 p i n)
  then show ?case
    by (subst (asm) (2) findSlot.simps)
      (auto simp add: readSlot_def Let_def split: if_splits sum.splits)
qed

lemma InsertRecord_fail_unchanged:
  "InsertRecord r p = (Inl e, p') \<Longrightarrow> e \<noteq> Panic \<Longrightarrow> p' = p"
  by (auto simp add: InsertRecord_def writeSlot_def Let_def
      split: if_splits sum.splits prod.splits dest: findSlot_error)

lemma UpdateRecord_page_inv:
  assumes inv: "page_inv p" and upd: "UpdateRecord sid r p = (Inr u, p')" and sid: "0 \<le> sid"
  shows "page_inv p'"
proof -
  from upd have lt: "sid < slotCount p"
    by (auto simp add: UpdateRecord_def Let_def slotCount_def split: if_splits)
  from inv have ok: "header_ok p" by (simp add: page_inv_def)
  note hk = header_okD[OF ok]
  from lt hk sid have rs: "readSlot sid p = Inr (slotOf p sid)" by (simp add: readSlot_ok)
  from upd have ne: "\<not> slotEmpty p sid"
    by (auto simp add: UpdateRecord_def Let_def rs slotEmpty_def split: if_splits)
  note s = slot_region[OF inv sid lt ne]
  from upd UpdateRecord_valid[OF inv sid lt ne, of r]
  have p': "p' = p\<lparr> Data := copy_bytes (Data p) (slotLo p sid) (int (length r)) r, dirty := True \<rparr>"
    by (auto split: if_splits)
  have low: "Data p' i = Data p i" if "i < 18 + 4 * slotCount p" for i
    using that s(3) by (simp add: p' copy_bytes_other page_consts)
  have hd: "readHeader p' = readHeader p"
    by (rule readHeader_cong) (use hk in \<open>simp add: low\<close>)
  have sl: "slotOf p' j = slotOf p j" if "0 \<le> j" "j < slotCount p" for j
    unfolding slotOf_eq by (rule slotAt_cong) (use that in \<open>simp add: low\<close>)
  have h: "slotCount p' = slotCount p" "freeStart p' = freeStart p" "freeEnd p' = freeEnd p"
    by (simp_all add: slotCount_def freeStart_def freeEnd_def hd)
  have oth: "slotEmpty p' j = slotEmpty p j" "slotLo p' j = slotLo p j" "slotHi p' j = slotHi p j"
    if "0 \<le> j" "j < slotCount p" for j
    using that sl by (simp_all add: slotEmpty_def slotLo_def slotHi_def)
  from inv show ?thesis
    by (simp add: page_inv_def header_ok_def slots_ok_def slots_disjoint_def h oth)
qed


section \<open>New pages and runs of operations\<close>

lemma readHeader_NewPage:
  "readHeader (NewPage pid) =
     \<lparr> PageID = pid, SlotCount = 0, FreeStart = 18, FreeEnd = 4096,
       NextPageID = - 1, PrevPageID = - 1 \<rparr>"
  by (simp add: NewPage_def readHeader_writeHeader page_consts)

lemma NewPage_fields:
  "slotCount (NewPage pid) = 0" "freeStart (NewPage pid) = 18" "freeEnd (NewPage pid) = 4096"
  by (simp_all add: slotCount_def freeStart_def freeEnd_def readHeader_NewPage)

lemma page_inv_NewPage: "page_inv (NewPage pid)"
  by (simp add: page_inv_def header_ok_def slots_ok_def slots_disjoint_def NewPage_fields page_consts)

lemma InsertRecord_succeeds:
  assumes ok: "header_ok p" and len: "int (length r) \<le> freeEnd p - freeStart p - SlotEntrySize"
  shows "\<exists>sid p'. InsertRecord r p = (Inr sid, p')"
proof -
  note hk = header_okD[OF ok]
  from findSlot_total[of 0 "slotCount p" p] hk obtain found where
    fs: "findSlot p 0 (slotCount p) = Inr found" by auto
  from findSlot_spec[OF _ _ fs] hk
  have found: "found = - 1 \<or> (0 \<le> found \<and> found < slotCount p)" by auto
  have ro: "0 \<le> freeEnd p - int (length r)" using len hk by (simp add: page_consts)
  have nf: "\<not> freeEnd p - freeStart p - SlotEntrySize < int (length r)" using len by simp
  show ?thesis
  proof (cases "found = - 1")
    case True
    have sid: "0 \<le> slotCount p" "slotCount p \<le> 1018"
      using hk len by (auto simp add: page_consts)
    then have so: "slotOffset (slotCount p) = 18 + 4 * slotCount p"
      by (simp add: slotOffset_range page_consts)
    show ?thesis
      using fs nf ro hk(4) so sid True
      by (simp add: InsertRecord_def Let_def writeSlot_def page_consts
          flip: slotCount_def freeStart_def freeEnd_def)
  next
    case False
    with found hk have sid: "0 \<le> found" "found \<le> 1018" by auto
    then have so: "slotOffset found = 18 + 4 * found"
      by (simp add: slotOffset_range page_consts)
    show ?thesis
      using fs nf ro hk(4) so sid False
      by (simp add: InsertRecord_def Let_def writeSlot_def page_consts
          flip: slotCount_def freeStart_def freeEnd_def)
  qed
qed

lemma InsertRecord_full:
  "freeEnd p - freeStart p - SlotEntrySize < int (length r) \<Longrightarrow> InsertRecord r p = (Inl PageFull, p)"
  by (simp add: InsertRecord_def Let_def freeStart_def freeEnd_def)

lemma InsertRecord_no_panic:
  assumes "header_ok p" shows "fst (InsertRecord r p) \<noteq> Inl Panic"
proof (cases "freeEnd p - freeStart p - SlotEntrySize < int (length r)")
  case True
  then show ?thesis by (simp add: InsertRecord_full)
next
  case False
  with InsertRecord_succeeds[OF assms, of r] show ?thesis by auto
qed

lemma DeleteRecord_no_panic:
  assumes ok: "header_ok p" and sid: "0 \<le> sid" shows "fst (DeleteRecord sid p) \<noteq> Inl Panic"
proof (cases "sid < slotCount p")
  case False
  then show ?thesis by (simp add: DeleteRecord_def slotCount_def)
next
  case True
  note hk = header_okD[OF ok]
  from True hk sid have le: "sid \<le> 1018" by simp
  with sid have "slotOffset sid = 18 + 4 * sid" by (simp add: slotOffset_range page_consts)
  with sid le show ?thesis
    by (simp add: DeleteRecord_def Let_def readSlot_ok writeSlot_def page_consts)
qed

lemma UpdateRecord_no_panic:
  assumes inv: "page_inv p" and sid: "0 \<le> sid" shows "fst (UpdateRecord sid r p) \<noteq> Inl Panic"
proof (cases "sid < slotCount p")
  case False
  then show ?thesis by (simp add: UpdateRecord_def slotCount_def)
next
  case True
  from inv have ok: "header_ok p" by (simp add: page_inv_def)
  note hk = header_okD[OF ok]
  from True hk sid have rs: "readSlot sid p = Inr (slotOf p sid)" by (simp add: readSlot_ok)
  show ?thesis
  proof (cases "slotEmpty p sid")
    case True
    then show ?thesis by (simp add: UpdateRecord_def Let_def rs slotEmpty_def)
  next
    case False
    from UpdateRecord_valid[OF inv sid \<open>sid < slotCount p\<close> False, of r] show ?thesis by simp
  qed
qed

lemma applyOp_page_inv:
  assumes inv: "page_inv p" and sid: "0 \<le> slotArg x"
  shows "fst (applyOp x p) \<noteq> Inl Panic \<and> page_inv (snd (applyOp x p))"
proof -
  from inv have ok: "header_ok p" by (simp add: page_inv_def)
  show ?thesis
  proof (cases x)
    case (OpInsert r)
    obtain res p' where ir: "InsertRecord r p = (res, p')" by (cases "InsertRecord r p")
    with InsertRecord_no_panic[OF ok, of r] have np: "res \<noteq> Inl Panic" by simp
    have "page_inv p'"
    proof (cases res)
      case (Inl e)
      with ir np InsertRecord_fail_unchanged[of r p e p'] inv show ?thesis by simp
    next
      case (Inr s)
      with ir InsertRecord_page_inv[OF inv, of r s p'] show ?thesis by simp
    qed
    with np ir OpInsert show ?thesis by (auto split: sum.splits)
  next
    case (OpUpdate s r)
    obtain res p' where ur: "UpdateRecord s r p = (res, p')" by (cases "UpdateRecord s r p")
    with UpdateRecord_no_panic[OF inv, of s r] sid OpUpdate have np: "res \<noteq> Inl Panic" by simp
    have "page_inv p'"
    proof (cases res)
      case (Inl e)
      with ur UpdateRecord_fail_unchanged[of s r p e p'] inv show ?thesis by simp
    next
      case (Inr u)
      with ur UpdateRecord_page_inv[OF inv, of s r u p'] sid OpUpdate show ?thesis by simp
    qed
    with np ur OpUpdate show ?thesis by simp
  next
    case (OpDelete s)
    obtain res p' where dr: "DeleteRecord s p = (res, p')" by (cases "DeleteRecord s p")
    with DeleteRecord_no_panic[OF ok, of s] sid OpDelete have np: "res \<noteq> Inl Panic" by simp
    have "page_inv p'"
    proof (cases res)
      case (Inl e)
      with dr np DeleteRecord_fail_unchanged[of s p e p'] inv show ?thesis by simp
    next
      case (Inr u)
      with dr DeleteRecord_page_inv[OF inv, of s u p'] sid OpDelete show ?thesis by simp
    qed
    with np dr OpDelete show ?thesis by simp
  qed
qed

lemma runOps_page_inv:
  "page_inv p \<Longrightarrow> \<forall>x \<in> set xs. 0 \<le> slotArg x \<Longrightarrow> \<exists>p'. runOps xs p = Some p' \<and> page_inv p'"
proof (induction xs arbitrary: p)
  case Nil
  then show ?case by simp
next
  case (Cons x xs)
  obtain res q where a: "applyOp x p = (res, q)" by (cases "applyOp x p")
  with applyOp_page_inv[OF Cons.prems(1), of x] Cons.prems(2)
  have np: "res \<noteq> Inl Panic" and q: "page_inv q" by auto
  from Cons.IH[OF q] Cons.prems(2) obtain p' where "runOps xs q = Some p'" "page_inv p'" by auto
  with a np show ?case by (auto split: sum.splits error.splits)
qed

lemma slotAt_header_6:
  "slotAt (Data p) 6 = \<lparr> Offset = FreeStart (readHeader p), Size = FreeEnd (readHeader p) \<rparr>"
  by (simp add: slotAt_def readHeader_def)

lemma DeleteRecord_minus3_NewPage:
  "DeleteRecord (- 3) (NewPage 0) =
     (Inr (), (NewPage 0)\<lparr> Data := PutUint16 (PutUint16 (Data (NewPage 0)) 6 0) 8 0, dirty := True \<rparr>)"
proof -
  have so: "slotOffset (- 3) = 6" by (simp add: slotOffset_range page_consts)
  show ?thesis
    by (simp add: DeleteRecord_def readSlot_def writeSlot_def so Let_def slotAt_header_6
        readHeader_NewPage page_consts)
qed

lemma DeleteRecord_valid:
  assumes ok: "header_ok p" and sid: "0 \<le> sid" "sid < slotCount p" and ne: "\<not> slotEmpty p sid"
  shows "\<exists>p'. DeleteRecord sid p = (Inr (), p')"
proof -
  note hk = header_okD[OF ok]
  from sid hk have le: "sid \<le> 1018" by simp
  with sid have so: "slotOffset sid = 18 + 4 * sid" by (simp add: slotOffset_range page_consts)
  from ne have nz: "Size (slotOf p sid) \<noteq> 0" by (simp add: slotEmpty_def)
  from sid have lt: "\<not> sint (SlotCount (readHeader p)) \<le> sid" by (simp add: slotCount_def)
  from sid le so nz lt show ?thesis
    by (simp add: DeleteRecord_def Let_def readSlot_ok writeSlot_def page_consts)
qed

lemma InsertRecord_NewPage:
  assumes len: "length r \<le> 4074"
  shows "\<exists>p'. InsertRecord r (NewPage pid) = (Inr 0, p') \<and> page_inv p' \<and> slotCount p' = 1 \<and>
           freeStart p' = 22 \<and> freeEnd p' = 4096 - int (length r) \<and>
           slotOf p' 0 = \<lparr> Offset = word_of_int (4096 - int (length r)),
                             Size = word_of_int (int (length r)) \<rparr> \<and>
           (slotEmpty p' 0 \<longleftrightarrow> r = [])"
proof -
  have inv: "page_inv (NewPage pid)" by (rule page_inv_NewPage)
  then have ok: "header_ok (NewPage pid)" by (simp add: page_inv_def)
  from len have "int (length r) \<le> freeEnd (NewPage pid) - freeStart (NewPage pid) - SlotEntrySize"
    by (simp add: NewPage_fields page_consts)
  from InsertRecord_succeeds[OF ok this] obtain sid p' where
    ins: "InsertRecord r (NewPage pid) = (Inr sid, p')" by auto
  note e = InsertRecord_effect[OF ok ins]
  note f = InsertRecord_slot_fields[OF ok ins]
  from e(1) have sid: "sid = 0" by (simp add: NewPage_fields)
  from e(2,3,4,9) f(1) sid InsertRecord_page_inv[OF inv ins] ins show ?thesis
    by (simp add: NewPage_fields page_consts)
qed


section \<open>The page invariant over operation sequences\<close>

text \<open>
  Claim C2. Every page reached from \<open>NewPage\<close> by a sequence of \<open>InsertRecord\<close>,
  \<open>UpdateRecord\<close> and \<open>DeleteRecord\<close> calls whose slot arguments are not negative
  is reached without a panic and satisfies: \<open>FreeStart = PageHeaderSize + SlotCount * 4\<close>,
  \<open>FreeStart \<le> FreeEnd\<close>, and every non-empty slot has its record region inside
  \<open>[FreeEnd, PageSize)\<close>, disjoint from the region of every other non-empty slot.
\<close>

theorem page_invariant_reachable:
  assumes "\<forall>x \<in> set ops. 0 \<le> slotArg x"
  shows "\<exists>p. runOps ops (NewPage pageID) = Some p \<and>
           freeStart p = PageHeaderSize + slotCount p * SlotEntrySize \<and>
           freeStart p \<le> freeEnd p \<and>
           (\<forall>i \<in> {0..<slotCount p}. \<not> slotEmpty p i \<longrightarrow>
              freeEnd p \<le> slotLo p i \<and> slotHi p i \<le> PageSize \<and>
              (\<forall>j \<in> {0..<slotCount p}. j \<noteq> i \<and> \<not> slotEmpty p j \<longrightarrow>
                 slotHi p i \<le> slotLo p j \<or> slotHi p j \<le> slotLo p i))"
proof -
  from runOps_page_inv[OF page_inv_NewPage assms] obtain p where
    r: "runOps ops (NewPage pageID) = Some p" and inv: "page_inv p" by blast
  from inv have "freeStart p = PageHeaderSize + slotCount p * SlotEntrySize" "freeStart p \<le> freeEnd p"
    by (simp_all add: page_inv_def header_ok_def)
  moreover from inv have "\<forall>i \<in> {0..<slotCount p}. \<not> slotEmpty p i \<longrightarrow>
              freeEnd p \<le> slotLo p i \<and> slotHi p i \<le> PageSize \<and>
              (\<forall>j \<in> {0..<slotCount p}. j \<noteq> i \<and> \<not> slotEmpty p j \<longrightarrow>
                 slotHi p i \<le> slotLo p j \<or> slotHi p j \<le> slotLo p i)"
    unfolding page_inv_def slots_ok_def slots_disjoint_def by blast
  ultimately show ?thesis using r by blast
qed

text \<open>The theorem at a run of four operations on page 0.\<close>

theorem page_invariant_reachable_witness:
  "list_all (\<lambda>x. 0 \<le> slotArg x) [OpInsert [1, 2, 3], OpInsert [4], OpDelete 0, OpUpdate 1 [5]] \<and>
   runOps [OpInsert [1, 2, 3], OpInsert [4], OpDelete 0, OpUpdate 1 [5]] (NewPage 0) \<noteq> None \<and>
   freeStart (the (runOps [OpInsert [1, 2, 3], OpInsert [4], OpDelete 0, OpUpdate 1 [5]] (NewPage 0)))
     = PageHeaderSize
       + slotCount (the (runOps [OpInsert [1, 2, 3], OpInsert [4], OpDelete 0, OpUpdate 1 [5]] (NewPage 0)))
         * SlotEntrySize"
proof -
  have h: "\<forall>x \<in> set [OpInsert [1, 2, 3], OpInsert [4], OpDelete 0, OpUpdate 1 [5]]. 0 \<le> slotArg x"
    by simp
  from page_invariant_reachable[OF h, of 0] obtain p where
    "runOps [OpInsert [1, 2, 3], OpInsert [4], OpDelete 0, OpUpdate 1 [5]] (NewPage 0) = Some p"
    "freeStart p = PageHeaderSize + slotCount p * SlotEntrySize" by blast
  then show ?thesis by simp
qed

text \<open>
  With a negative slot argument the statement fails: \<open>readSlot\<close> and \<open>writeSlot\<close>
  compute \<open>PageHeaderSize + slotID * SlotEntrySize\<close> without a lower bound on
  \<open>slotID\<close>, so slot \<open>-3\<close> is the header's \<open>FreeStart\<close> and \<open>FreeEnd\<close> fields.
  \<open>DeleteRecord (-3)\<close> on a new page succeeds and zeroes both.
\<close>

theorem page_invariant_negative_slot_counterexample:
  "runOps [OpDelete (- 3)] (NewPage 0) \<noteq> None \<and>
   freeStart (the (runOps [OpDelete (- 3)] (NewPage 0))) \<noteq>
     PageHeaderSize + slotCount (the (runOps [OpDelete (- 3)] (NewPage 0))) * SlotEntrySize"
proof -
  let ?q = "(NewPage 0)\<lparr> Data := PutUint16 (PutUint16 (Data (NewPage 0)) 6 0) 8 0, dirty := True \<rparr>"
  have r: "runOps [OpDelete (- 3)] (NewPage 0) = Some ?q"
    by (simp add: DeleteRecord_minus3_NewPage)
  have "freeStart ?q = 0"
    by (simp add: freeStart_def readHeader_def PutUint16_def Uint16_def)
  moreover have "slotCount ?q = 0"
    using NewPage_fields(1)[of 0]
    by (simp add: slotCount_def readHeader_def PutUint16_def)
  ultimately show ?thesis unfolding r by (simp add: page_consts)
qed

section \<open>Free-space boundary of InsertRecord\<close>

text \<open>
  Claim C6. On a page whose header is well formed, a record of length \<open>n\<close> is inserted
  when the free space \<open>FreeEnd - FreeStart\<close> is exactly \<open>n + SlotEntrySize\<close>; with one
  byte less \<open>InsertRecord\<close> fails with \<open>PageFull\<close> and returns the page unchanged
  (this half holds on any page image).
\<close>

theorem InsertRecord_exact_fit:
  "(header_ok p \<and> freeEnd p - freeStart p = int (length r) + SlotEntrySize \<longrightarrow>
      (\<exists>sid p'. InsertRecord r p = (Inr sid, p'))) \<and>
   (freeEnd p - freeStart p = int (length r) + SlotEntrySize - 1 \<longrightarrow>
      InsertRecord r p = (Inl PageFull, p))"
proof (intro conjI impI)
  assume "header_ok p \<and> freeEnd p - freeStart p = int (length r) + SlotEntrySize"
  then show "\<exists>sid p'. InsertRecord r p = (Inr sid, p')"
    by (intro InsertRecord_succeeds) simp_all
next
  assume "freeEnd p - freeStart p = int (length r) + SlotEntrySize - 1"
  then show "InsertRecord r p = (Inl PageFull, p)"
    by (intro InsertRecord_full) simp
qed

text \<open>The theorem on a new page: 4074 bytes fit, 4075 bytes do not.\<close>

theorem InsertRecord_exact_fit_witness:
  "header_ok (NewPage 0) \<and>
   freeEnd (NewPage 0) - freeStart (NewPage 0) = int (length (replicate 4074 (0 :: byte))) + SlotEntrySize \<and>
   fst (InsertRecord (replicate 4074 0) (NewPage 0)) \<noteq> Inl PageFull \<and>
   freeEnd (NewPage 0) - freeStart (NewPage 0) = int (length (replicate 4075 (0 :: byte))) + SlotEntrySize - 1 \<and>
   InsertRecord (replicate 4075 0) (NewPage 0) = (Inl PageFull, NewPage 0)"
proof -
  have ok: "header_ok (NewPage 0)" using page_inv_NewPage[of 0] by (simp add: page_inv_def)
  have a: "freeEnd (NewPage 0) - freeStart (NewPage 0) = int (length (replicate 4074 (0 :: byte))) + SlotEntrySize"
    by (simp add: NewPage_fields page_consts)
  have b: "freeEnd (NewPage 0) - freeStart (NewPage 0) = int (length (replicate 4075 (0 :: byte))) + SlotEntrySize - 1"
    by (simp add: NewPage_fields page_consts)
  from InsertRecord_exact_fit[of "NewPage 0" "replicate 4074 0"] ok a
  obtain sid p' where "InsertRecord (replicate 4074 0) (NewPage 0) = (Inr sid, p')" by blast
  moreover from InsertRecord_exact_fit[of "NewPage 0" "replicate 4075 0"] b
  have "InsertRecord (replicate 4075 0) (NewPage 0) = (Inl PageFull, NewPage 0)" by blast
  ultimately show ?thesis using ok a b by simp
qed

section \<open>Slot choice of InsertRecord\<close>

lemma InsertRecord_choice_any:
  assumes ins: "InsertRecord r p = (Inr sid, p')"
  shows "(\<exists>i \<in> {0..<slotCount p}. slotEmpty p i) \<longrightarrow>
           0 \<le> sid \<and> sid < slotCount p \<and> slotEmpty p sid \<and> (\<forall>j \<in> {0..<sid}. \<not> slotEmpty p j) \<and>
           slotCount p' = slotCount p \<and> freeStart p' = freeStart p"
    and "(\<forall>i \<in> {0..<slotCount p}. \<not> slotEmpty p i) \<longrightarrow>
           sid = slotCount p \<and> slotCount p' = slotCount p + 1 \<and>
           freeStart p' = freeStart p + SlotEntrySize"
proof -
  from ins obtain found where
    fs: "findSlot p 0 (slotCount p) = Inr found" and
    sid: "sid = (if found = - 1 then slotCount p else found)" and
    len: "int (length r) \<le> freeEnd p - freeStart p - SlotEntrySize" and
    so: "0 \<le> slotOffset sid" "slotOffset sid + 4 \<le> PageSize" and
    p': "p' = writeHeader
            ((if found = - 1
              then (readHeader p)\<lparr> SlotCount := SlotCount (readHeader p) + 1,
                     FreeStart := FreeStart (readHeader p) + word_of_int SlotEntrySize \<rparr>
              else readHeader p)\<lparr> FreeEnd := word_of_int (freeEnd p - int (length r)) \<rparr>)
            (p\<lparr> Data := PutUint16 (PutUint16
                     (copy_bytes (Data p) (freeEnd p - int (length r)) (int (length r)) r)
                     (slotOffset sid) (word_of_int (freeEnd p - int (length r))))
                     (slotOffset sid + 2) (word_of_int (int (length r))),
                dirty := True \<rparr>)"
    by (rule InsertRecord_Inr)
  have nb: "- 32768 \<le> slotCount p" "slotCount p < 32768"
    using sint16_bounds[of "SlotCount (readHeader p)"] by (simp_all add: slotCount_def)
  have fb: "- 32768 \<le> freeStart p" "freeEnd p < 32768"
    using sint16_bounds[of "FreeStart (readHeader p)"] sint16_bounds[of "FreeEnd (readHeader p)"]
    by (simp_all add: freeStart_def freeEnd_def)
  from findSlot_spec[OF _ _ fs] nb
  have found: "(found = - 1 \<and> (\<forall>j. 0 \<le> j \<and> j < slotCount p \<longrightarrow> \<not> slotEmpty p j)) \<or>
     (0 \<le> found \<and> found < slotCount p \<and> slotEmpty p found \<and> (\<forall>j. 0 \<le> j \<and> j < found \<longrightarrow> \<not> slotEmpty p j))"
    by auto
  show "(\<exists>i \<in> {0..<slotCount p}. slotEmpty p i) \<longrightarrow>
           0 \<le> sid \<and> sid < slotCount p \<and> slotEmpty p sid \<and> (\<forall>j \<in> {0..<sid}. \<not> slotEmpty p j) \<and>
           slotCount p' = slotCount p \<and> freeStart p' = freeStart p"
  proof
    assume "\<exists>i \<in> {0..<slotCount p}. slotEmpty p i"
    with found have f: "found \<noteq> - 1" "0 \<le> found" "found < slotCount p" "slotEmpty p found"
      "\<forall>j. 0 \<le> j \<and> j < found \<longrightarrow> \<not> slotEmpty p j" by auto
    with sid have s: "sid = found" by simp
    have "slotCount p' = slotCount p" "freeStart p' = freeStart p"
      using f(1) by (simp_all add: p' header_fields_writeHeader) (simp_all add: slotCount_def freeStart_def)
    with f s show "0 \<le> sid \<and> sid < slotCount p \<and> slotEmpty p sid \<and> (\<forall>j \<in> {0..<sid}. \<not> slotEmpty p j) \<and>
           slotCount p' = slotCount p \<and> freeStart p' = freeStart p" by simp
  qed
  show "(\<forall>i \<in> {0..<slotCount p}. \<not> slotEmpty p i) \<longrightarrow>
           sid = slotCount p \<and> slotCount p' = slotCount p + 1 \<and>
           freeStart p' = freeStart p + SlotEntrySize"
  proof
    assume "\<forall>i \<in> {0..<slotCount p}. \<not> slotEmpty p i"
    with found have f: "found = - 1" by auto
    with sid have s: "sid = slotCount p" by simp
    with nb have "slotOffset sid = 18 + 4 * slotCount p" by (simp add: slotOffset_range page_consts)
    with so have n: "slotCount p \<le> 1018" by (simp add: page_consts)
    have sc1: "sint (SlotCount (readHeader p) + 1) = slotCount p + 1"
      using n nb sint16_add[of "SlotCount (readHeader p)" 1] by (simp add: slotCount_def)
    have "freeStart p \<le> 32763" using len fb by (simp add: page_consts)
    then have fs4: "sint (FreeStart (readHeader p) + word_of_int SlotEntrySize) = freeStart p + 4"
      using fb sint16_add[of "FreeStart (readHeader p)" 4] by (simp add: freeStart_def page_consts)
    have "slotCount p' = slotCount p + 1" "freeStart p' = freeStart p + SlotEntrySize"
      using f sc1 fs4 by (simp_all add: p' header_fields_writeHeader page_consts)
    with s show "sid = slotCount p \<and> slotCount p' = slotCount p + 1 \<and>
           freeStart p' = freeStart p + SlotEntrySize" by simp
  qed
qed

text \<open>
  Claim C7. A successful \<open>InsertRecord\<close> on a page with an empty slot among
  \<open>[0, SlotCount)\<close> returns the smallest empty slot index and leaves \<open>SlotCount\<close> and
  \<open>FreeStart\<close> unchanged; with no empty slot it appends at index \<open>SlotCount\<close> and
  increments \<open>SlotCount\<close> by one and \<open>FreeStart\<close> by \<open>SlotEntrySize\<close>. After a
  successful \<open>DeleteRecord\<close> of slot \<open>s\<close> the next successful insert appends nothing:
  it reuses a tombstone at an index not above \<open>s\<close>, and slot \<open>s\<close> itself when no
  smaller slot was empty. The statement holds for every page image.
\<close>

theorem InsertRecord_slot_choice:
  assumes ins: "InsertRecord r p = (Inr sid, p')"
  shows "((\<exists>i \<in> {0..<slotCount p}. slotEmpty p i) \<longrightarrow>
            0 \<le> sid \<and> sid < slotCount p \<and> slotEmpty p sid \<and> (\<forall>j \<in> {0..<sid}. \<not> slotEmpty p j) \<and>
            slotCount p' = slotCount p \<and> freeStart p' = freeStart p) \<and>
         ((\<forall>i \<in> {0..<slotCount p}. \<not> slotEmpty p i) \<longrightarrow>
            sid = slotCount p \<and> slotCount p' = slotCount p + 1 \<and>
            freeStart p' = freeStart p + SlotEntrySize) \<and>
         (0 \<le> s \<and> DeleteRecord s p0 = (Inr (), p) \<longrightarrow>
            0 \<le> sid \<and> sid \<le> s \<and> slotEmpty p sid \<and>
            slotCount p' = slotCount p0 \<and> freeStart p' = freeStart p0 \<and>
            ((\<forall>j \<in> {0..<s}. \<not> slotEmpty p0 j) \<longrightarrow> sid = s))"
proof (intro conjI)
  note c = InsertRecord_choice_any[OF ins]
  show "(\<exists>i \<in> {0..<slotCount p}. slotEmpty p i) \<longrightarrow>
            0 \<le> sid \<and> sid < slotCount p \<and> slotEmpty p sid \<and> (\<forall>j \<in> {0..<sid}. \<not> slotEmpty p j) \<and>
            slotCount p' = slotCount p \<and> freeStart p' = freeStart p" by (rule c(1))
  show "(\<forall>i \<in> {0..<slotCount p}. \<not> slotEmpty p i) \<longrightarrow>
            sid = slotCount p \<and> slotCount p' = slotCount p + 1 \<and>
            freeStart p' = freeStart p + SlotEntrySize" by (rule c(2))
  show "0 \<le> s \<and> DeleteRecord s p0 = (Inr (), p) \<longrightarrow>
            0 \<le> sid \<and> sid \<le> s \<and> slotEmpty p sid \<and>
            slotCount p' = slotCount p0 \<and> freeStart p' = freeStart p0 \<and>
            ((\<forall>j \<in> {0..<s}. \<not> slotEmpty p0 j) \<longrightarrow> sid = s)"
  proof
    assume a: "0 \<le> s \<and> DeleteRecord s p0 = (Inr (), p)"
    then have s0: "0 \<le> s" and del: "DeleteRecord s p0 = (Inr (), p)" by simp_all
    note d = DeleteRecord_Inr[OF del s0]
    note e = DeleteRecord_effect[OF del s0]
    have h: "slotCount p = slotCount p0" "freeStart p = freeStart p0"
      by (simp_all add: slotCount_def freeStart_def e(1))
    have se: "slotEmpty p s" by (simp add: slotEmpty_def e(2))
    with s0 d(1) h have ex: "\<exists>i \<in> {0..<slotCount p}. slotEmpty p i" by auto
    with c(1) have r: "0 \<le> sid" "sid < slotCount p" "slotEmpty p sid" "\<forall>j \<in> {0..<sid}. \<not> slotEmpty p j"
      "slotCount p' = slotCount p" "freeStart p' = freeStart p" by simp_all
    have le: "sid \<le> s"
    proof (rule ccontr)
      assume "\<not> sid \<le> s"
      with s0 r(4) have "\<not> slotEmpty p s" by auto
      with se show False by simp
    qed
    have eq: "sid = s" if "\<forall>j \<in> {0..<s}. \<not> slotEmpty p0 j"
    proof (rule ccontr)
      assume "sid \<noteq> s"
      with le r(1) have lt: "sid \<in> {0..<s}" by auto
      with that have "\<not> slotEmpty p0 sid" by blast
      moreover from lt r(1) e(3) have "slotOf p sid = slotOf p0 sid" by auto
      ultimately show False using r(3) by (simp add: slotEmpty_def)
    qed
    from r le eq h show "0 \<le> sid \<and> sid \<le> s \<and> slotEmpty p sid \<and>
            slotCount p' = slotCount p0 \<and> freeStart p' = freeStart p0 \<and>
            ((\<forall>j \<in> {0..<s}. \<not> slotEmpty p0 j) \<longrightarrow> sid = s)" by simp
  qed
qed

text \<open>The theorem on a new page: insert, delete slot 0, insert again into slot 0.\<close>

theorem InsertRecord_slot_choice_witness:
  "fst (InsertRecord [1] (NewPage 0)) = Inr 0 \<and>
   DeleteRecord 0 (snd (InsertRecord [1] (NewPage 0))) =
     (Inr (), snd (DeleteRecord 0 (snd (InsertRecord [1] (NewPage 0))))) \<and>
   fst (InsertRecord [3] (snd (DeleteRecord 0 (snd (InsertRecord [1] (NewPage 0)))))) = Inr 0 \<and>
   slotCount (snd (InsertRecord [3] (snd (DeleteRecord 0 (snd (InsertRecord [1] (NewPage 0))))))) = 1"
proof -
  from InsertRecord_NewPage[of "[1]" 0] obtain p0 where
    i1: "InsertRecord [1] (NewPage 0) = (Inr 0, p0)" and inv0: "page_inv p0" and
    n0: "slotCount p0 = 1" "freeStart p0 = 22" "freeEnd p0 = 4096 - int (length [1::byte])" and
    ne0: "\<not> slotEmpty p0 0" by auto
  from inv0 have ok0: "header_ok p0" by (simp add: page_inv_def)
  from DeleteRecord_valid[OF ok0, of 0] n0 ne0 obtain p where
    del: "DeleteRecord 0 p0 = (Inr (), p)" by auto
  from DeleteRecord_page_inv[OF inv0 del] have inv: "page_inv p" by simp
  then have ok: "header_ok p" by (simp add: page_inv_def)
  from DeleteRecord_effect(1)[OF del] have hd: "readHeader p = readHeader p0" by simp
  have "int (length [3::byte]) \<le> freeEnd p - freeStart p - SlotEntrySize"
    using n0 by (simp add: freeEnd_def freeStart_def hd page_consts)
  from InsertRecord_succeeds[OF ok this] obtain sid p' where
    i3: "InsertRecord [3] p = (Inr sid, p')" by auto
  from InsertRecord_slot_choice[OF i3, of 0 p0] del n0
  have "sid = 0" "slotCount p' = 1" by auto
  with i1 del i3 show ?thesis by simp
qed

section \<open>UpdateRecord\<close>

text \<open>
  Claim C8. On a page satisfying the invariant, for a non-empty slot
  \<open>0 \<le> slotID < SlotCount\<close>: \<open>UpdateRecord\<close> fails with \<open>SizeMismatch\<close> when the
  length of the new record differs from the slot's size; when it is equal the call
  succeeds, marks the page dirty and overwrites exactly the bytes of the slot's record
  region. Whenever an \<open>UpdateRecord\<close> (any page, any slot) fails with \<open>NoSuchSlot\<close>,
  \<open>EmptySlot\<close> or \<open>SizeMismatch\<close> the page is returned unchanged.
\<close>

theorem UpdateRecord_contract:
  assumes inv: "page_inv p" and sid: "0 \<le> sid" "sid < slotCount p" and ne: "\<not> slotEmpty p sid"
  shows "(int (length r) \<noteq> sint (Size (slotOf p sid)) \<longrightarrow>
            UpdateRecord sid r p = (Inl SizeMismatch, p)) \<and>
         (int (length r) = sint (Size (slotOf p sid)) \<longrightarrow>
            (\<exists>p'. UpdateRecord sid r p = (Inr (), p') \<and> dirty p' \<and> pagePageID p' = pagePageID p \<and>
               (\<forall>i. Data p' i = (if slotLo p sid \<le> i \<and> i < slotHi p sid
                                   then r ! nat (i - slotLo p sid) else Data p i)))) \<and>
         (fst (UpdateRecord sid' r' q) \<in> {Inl NoSuchSlot, Inl EmptySlot, Inl SizeMismatch} \<longrightarrow>
            snd (UpdateRecord sid' r' q) = q)"
proof (intro conjI impI)
  note v = UpdateRecord_valid[OF inv sid ne, of r]
  show "UpdateRecord sid r p = (Inl SizeMismatch, p)"
    if "int (length r) \<noteq> sint (Size (slotOf p sid))"
    using v that by simp
  show "\<exists>p'. UpdateRecord sid r p = (Inr (), p') \<and> dirty p' \<and> pagePageID p' = pagePageID p \<and>
               (\<forall>i. Data p' i = (if slotLo p sid \<le> i \<and> i < slotHi p sid
                                   then r ! nat (i - slotLo p sid) else Data p i))"
    if eq: "int (length r) = sint (Size (slotOf p sid))"
  proof -
    have hi: "slotHi p sid = slotLo p sid + int (length r)"
      using eq by (simp add: slotHi_def slotLo_def)
    from v eq have "UpdateRecord sid r p =
        (Inr (), p\<lparr> Data := copy_bytes (Data p) (slotLo p sid) (int (length r)) r, dirty := True \<rparr>)"
      by simp
    then show ?thesis by (simp add: hi copy_bytes_def)
  qed
  show "snd (UpdateRecord sid' r' q) = q"
    if "fst (UpdateRecord sid' r' q) \<in> {Inl NoSuchSlot, Inl EmptySlot, Inl SizeMismatch}"
  proof -
    obtain res q' where u: "UpdateRecord sid' r' q = (res, q')" by (cases "UpdateRecord sid' r' q")
    with that obtain e where "res = Inl e" by auto
    with u UpdateRecord_fail_unchanged[of sid' r' q e q'] show ?thesis by simp
  qed
qed

text \<open>The theorem on a page holding one two-byte record.\<close>

theorem UpdateRecord_contract_witness:
  "fst (InsertRecord [1, 2] (NewPage 0)) = Inr 0 \<and>
   page_inv (snd (InsertRecord [1, 2] (NewPage 0))) \<and>
   0 < slotCount (snd (InsertRecord [1, 2] (NewPage 0))) \<and>
   \<not> slotEmpty (snd (InsertRecord [1, 2] (NewPage 0))) 0 \<and>
   UpdateRecord 0 [7] (snd (InsertRecord [1, 2] (NewPage 0))) =
     (Inl SizeMismatch, snd (InsertRecord [1, 2] (NewPage 0))) \<and>
   fst (UpdateRecord 0 [7, 8] (snd (InsertRecord [1, 2] (NewPage 0)))) = Inr () \<and>
   fst (UpdateRecord 5 [7, 8] (snd (InsertRecord [1, 2] (NewPage 0)))) = Inl NoSuchSlot \<and>
   snd (UpdateRecord 5 [7, 8] (snd (InsertRecord [1, 2] (NewPage 0)))) =
     snd (InsertRecord [1, 2] (NewPage 0))"
proof -
  from InsertRecord_NewPage[of "[1, 2]" 0] obtain p where
    i1: "InsertRecord [1, 2] (NewPage 0) = (Inr 0, p)" and inv: "page_inv p" and
    n: "slotCount p = 1" and
    sl: "slotOf p 0 = \<lparr> Offset = word_of_int (4096 - int (length [1, 2 :: byte])),
                         Size = word_of_int (int (length [1, 2 :: byte])) \<rparr>" and
    ne: "\<not> slotEmpty p 0" by auto
  have sz: "sint (Size (slotOf p 0)) = 2" by (simp add: sl)
  have nss: "fst (UpdateRecord 5 [7, 8] p) = Inl NoSuchSlot"
    using n by (simp add: UpdateRecord_def slotCount_def)
  note c1 = UpdateRecord_contract[OF inv _ _ ne, of "[7]" 5 "[7, 8]" p]
  note c2 = UpdateRecord_contract[OF inv _ _ ne, of "[7, 8]" 5 "[7, 8]" p]
  from c1 n sz have a: "UpdateRecord 0 [7] p = (Inl SizeMismatch, p)" by simp
  from c2 n sz have b: "fst (UpdateRecord 0 [7, 8] p) = Inr ()" by auto
  from c1 n nss have c: "snd (UpdateRecord 5 [7, 8] p) = p" by simp
  from i1 inv n ne a b c nss show ?thesis by simp
qed

section \<open>The page counter on first access\<close>

text \<open>
  Claim C5, at the input where the code departs from it. The table file holds one page.
  \<open>GetPageCount\<close> reads the \<open>pageCounter\<close> map and never calls \<open>getFile\<close>, the only
  place where the counter is initialised from the file size: as the first operation on the
  table it returns 0, and 1 only after another operation has opened the file.
\<close>

theorem GetPageCount_before_first_access:
  "GetPageCount ''users'' (NewDiskManager [''users'' \<mapsto> replicate 4096 0]) = 0 \<and>
   GetPageCount ''users'' (getFile ''users'' (NewDiskManager [''users'' \<mapsto> replicate 4096 0])) = 1"
  by (simp add: GetPageCount_def NewDiskManager_def getFile_def Let_def PageSize_def)

section \<open>CRUD on a table that is not in the catalog\<close>

text \<open>
  Claim C4, at the input where the code departs from it. On an open layer with an empty
  catalog \<open>Insert\<close> returns the unknown-table error, while \<open>Get\<close>, \<open>Update\<close> and
  \<open>DeleteRecord\<close> do not check \<open>TableExists\<close>: they call \<open>Search\<close> on the nil index
  of the table and the program panics.
\<close>

theorem crud_on_unknown_table_panics:
  "fst (Get ''ghost'' 1 (openedLayer Map.empty)) = Inl Panic \<and>
   fst (Update ''ghost'' 1 [0] (openedLayer Map.empty)) = Inl Panic \<and>
   fst (FSL_DeleteRecord ''ghost'' 1 (openedLayer Map.empty)) = Inl Panic \<and>
   fst (Insert ''ghost'' [0] (openedLayer Map.empty)) = Inl UnknownTable"
  by (simp add: Get_def Update_def FSL_DeleteRecord_def Insert_def openedLayer_def TableExists_def)

section \<open>Reading back an inserted record\<close>

lemma InsertRecord_header_ok:
  assumes ok: "header_ok p" and ins: "InsertRecord r p = (Inr sid, p')"
  shows "header_ok p'"
proof -
  note e = InsertRecord_effect[OF ok ins]
  note hk = header_okD[OF ok]
  show ?thesis
    unfolding header_ok_def using e(1,2,3,4,5) hk by (auto simp add: page_consts)
qed

lemma GetRecord_after_InsertRecord:
  assumes ok: "header_ok p" and ins: "InsertRecord r p = (Inr sid, p')" and ne: "r \<noteq> []"
  shows "GetRecord sid p' = Inr r"
proof -
  note e = InsertRecord_effect[OF ok ins]
  note f = InsertRecord_slot_fields[OF ok ins]
  note hk = header_okD[OF ok]
  let ?n = "int (length r)"
  let ?ro = "freeEnd p - ?n"
  have len: "0 < ?n" "?n \<le> 4096" "0 \<le> ?ro" "?ro \<le> 4096" "freeEnd p \<le> 4096"
    using e(5) hk ne by (simp_all add: page_consts)
  have lt: "\<not> sint (SlotCount (readHeader p')) \<le> sid"
    using e(1,2) by (auto simp add: slotCount_def[symmetric])
  have rs: "readSlot sid p' = Inr (slotOf p' sid)" using e(1) by (simp add: readSlot_ok)
  have nz: "Size (slotOf p' sid) \<noteq> 0" using f(1) ne by (simp add: slotEmpty_def)
  have lo: "sint (Offset (slotOf p' sid)) = ?ro" using f(2) by (simp add: slotLo_def)
  have sz: "sint (Size (slotOf p' sid)) = ?n" using f(2,3) by (simp add: slotLo_def slotHi_def)
  have hi: "sint (Offset (slotOf p' sid) + Size (slotOf p' sid)) = freeEnd p"
    using sint16_add[of "Offset (slotOf p' sid)" "Size (slotOf p' sid)"] lo sz len by simp
  have sl: "slice (Data p') ?ro (freeEnd p) = r"
  proof (rule nth_equalityI)
    show "length (slice (Data p') ?ro (freeEnd p)) = length r"
      by (simp add: slice_def)
    fix k assume "k < length (slice (Data p') ?ro (freeEnd p))"
    then have k: "k < length r" by (simp add: slice_def)
    then have "[?ro..freeEnd p - 1] ! k = ?ro + int k" by (intro nth_upto) simp
    with k have "slice (Data p') ?ro (freeEnd p) ! k = Data p' (?ro + int k)"
      by (simp add: slice_def)
    also have "\<dots> = r ! nat (?ro + int k - ?ro)" using e(10) k by simp
    finally show "slice (Data p') ?ro (freeEnd p) ! k = r ! k" by simp
  qed
  show ?thesis
    using lt nz len by (simp add: GetRecord_def rs Let_def lo sz hi sl page_consts)
qed

lemma GetRecord_after_empty_InsertRecord:
  assumes ok: "header_ok p" and ins: "InsertRecord [] p = (Inr sid, p')"
  shows "GetRecord sid p' = Inl EmptySlot"
proof -
  note e = InsertRecord_effect[OF ok ins]
  note f = InsertRecord_slot_fields[OF ok ins]
  have lt: "\<not> sint (SlotCount (readHeader p')) \<le> sid"
    using e(1,2) by (auto simp add: slotCount_def[symmetric])
  have rs: "readSlot sid p' = Inr (slotOf p' sid)" using e(1) by (simp add: readSlot_ok)
  have z: "Size (slotOf p' sid) = 0" using f(1) by (simp add: slotEmpty_def)
  show ?thesis using lt z by (simp add: GetRecord_def rs)
qed


section \<open>Blank pages and good pages\<close>

lemma blank_header:
  assumes "blank_page p"
  shows "slotCount p = 0" "freeStart p = 0" "freeEnd p = 0"
  using assms
  by (simp_all add: blank_page_def slotCount_def freeStart_def freeEnd_def readHeader_def
      Uint16_def page_consts)

lemma blank_InsertRecord: "blank_page p \<Longrightarrow> InsertRecord r p = (Inl PageFull, p)"
  by (rule InsertRecord_full) (simp add: blank_header page_consts)

lemma blank_UpdateRecord: "blank_page p \<Longrightarrow> 0 \<le> sid \<Longrightarrow> UpdateRecord sid r p = (Inl NoSuchSlot, p)"
  using blank_header(1)[of p] by (simp add: UpdateRecord_def slotCount_def)

lemma blank_DeleteRecord: "blank_page p \<Longrightarrow> 0 \<le> sid \<Longrightarrow> DeleteRecord sid p = (Inl NoSuchSlot, p)"
  using blank_header(1)[of p] by (simp add: DeleteRecord_def slotCount_def)

lemma page_good_InsertRecord: "page_good p \<Longrightarrow> page_good (snd (InsertRecord r p))"
  using applyOp_page_inv[of p "OpInsert r"]
  by (auto simp add: page_good_def blank_InsertRecord split: prod.splits sum.splits)

lemma page_good_UpdateRecord: "page_good p \<Longrightarrow> 0 \<le> sid \<Longrightarrow> page_good (snd (UpdateRecord sid r p))"
  using applyOp_page_inv[of p "OpUpdate sid r"]
  by (auto simp add: page_good_def blank_UpdateRecord)

lemma page_good_DeleteRecord: "page_good p \<Longrightarrow> 0 \<le> sid \<Longrightarrow> page_good (snd (DeleteRecord sid p))"
  using applyOp_page_inv[of p "OpDelete sid"]
  by (auto simp add: page_good_def blank_DeleteRecord)

lemma page_good_Inr_InsertRecord:
  assumes "page_good p" and "InsertRecord r p = (Inr sid, p')"
  shows "page_inv p"
  using assms by (auto simp add: page_good_def blank_InsertRecord)

lemma page_good_NewPage: "page_good (NewPage pid)"
  by (simp add: page_good_def page_inv_NewPage)

text \<open>Goodness of a page depends on its 4096 bytes only.\<close>

lemma page_good_cong:
  assumes g: "page_good p" and eq: "\<And>i. 0 \<le> i \<Longrightarrow> i < PageSize \<Longrightarrow> Data q i = Data p i"
  shows "page_good q"
proof -
  have h: "readHeader q = readHeader p"
    by (rule readHeader_cong) (simp add: eq page_consts)
  then have f: "slotCount q = slotCount p" "freeStart q = freeStart p" "freeEnd q = freeEnd p"
    by (simp_all add: slotCount_def freeStart_def freeEnd_def)
  from g show ?thesis unfolding page_good_def
  proof
    assume inv: "page_inv p"
    then have ok: "header_ok p" by (simp add: page_inv_def)
    note hk = header_okD[OF ok]
    have s: "slotOf q i = slotOf p i" if "0 \<le> i" "i < slotCount p" for i
      unfolding slotOf_def using that hk
      by (intro slotAt_cong eq) (simp_all add: page_consts)
    then have e: "slotEmpty q i = slotEmpty p i" "slotLo q i = slotLo p i" "slotHi q i = slotHi p i"
      if "0 \<le> i" "i < slotCount p" for i
      using that by (simp_all add: slotEmpty_def slotLo_def slotHi_def)
    have "header_ok q" using ok by (simp add: header_ok_def f)
    moreover have "slots_ok q" using inv by (simp add: page_inv_def slots_ok_def f e)
    moreover have "slots_disjoint q" using inv by (simp add: page_inv_def slots_disjoint_def f e)
    ultimately show "page_inv q \<or> blank_page q" by (simp add: page_inv_def)
  next
    assume "blank_page p"
    then have "blank_page q" by (simp add: blank_page_def eq)
    then show "page_inv q \<or> blank_page q" ..
  qed
qed

section \<open>Table files\<close>

lemma fileContent_getFile: "fileContent (getFile t dm) t' = fileContent dm t'"
  by (simp add: fileContent_def getFile_def Let_def split: option.splits)

lemma disk_good_cong: "(\<And>t. fileContent dm' t = fileContent dm t) \<Longrightarrow> disk_good dm' = disk_good dm"
  by (simp add: disk_good_def)

lemma disk_good_getFile: "disk_good (getFile t dm) = disk_good dm"
  by (rule disk_good_cong) (rule fileContent_getFile)

lemma disk_good_AllocatePage: "disk_good (snd (AllocatePage t dm)) = disk_good dm"
  by (rule disk_good_cong) (simp add: AllocatePage_def Let_def fileContent_def getFile_def split: option.splits)

lemma ReadPage_fst:
  "fst (ReadPage t pid dm) =
     (if sint pid * PageSize < 0 \<or> int (length (fileContent dm t)) < sint pid * PageSize + PageSize
      then Inl IOError
      else Inr (take (nat PageSize) (drop (nat (sint pid * PageSize)) (fileContent dm t))))"
  using fileContent_getFile[of t dm t]
  by (simp add: ReadPage_def Let_def fileContent_def)

lemma disk_good_read:
  assumes g: "disk_good dm" and r: "fst (ReadPage t pid dm) = Inr data"
    and l: "LoadPage pid data = Some pg"
  shows "page_good pg"
proof -
  let ?c = "fileContent dm t"
  let ?k = "nat (sint pid)"
  from r have nn: "0 \<le> sint pid" and le: "sint pid * 4096 + 4096 \<le> int (length ?c)"
    and data: "data = take 4096 (drop (nat (sint pid * 4096)) ?c)"
    by (auto simp add: ReadPage_fst page_consts split: if_splits)
  from nn have o: "nat (sint pid * 4096) = ?k * 4096" by (simp add: nat_mult_distrib)
  from nn le have "int ((?k + 1) * 4096) \<le> int (length ?c)" by simp
  then have le': "(?k + 1) * 4096 \<le> length ?c" by (simp only: of_nat_le_iff)
  from g have "file_good ?c" by (simp add: disk_good_def)
  with le' have "image_good (take 4096 (drop (?k * 4096) ?c))"
    unfolding file_good_def by (simp add: page_consts)
  with data o l show ?thesis by (simp add: image_good_def)
qed

lemma image_good_blank: "image_good (replicate 4096 0)"
  by (auto simp add: image_good_def LoadPage_def page_good_def blank_page_def page_consts)

lemma nth_slice: "lo \<le> i \<Longrightarrow> i < hi \<Longrightarrow> slice d lo hi ! nat (i - lo) = d i"
  by (simp add: slice_def)

lemma length_GetData: "length (GetData p) = 4096"
  by (simp add: GetData_def slice_def page_consts)

lemma image_good_GetData:
  assumes "page_good p" shows "image_good (GetData p)"
  unfolding image_good_def
proof (intro allI impI)
  fix pageID pg
  assume "LoadPage pageID (GetData p) = Some pg"
  then have d: "Data pg = (\<lambda>i. if 0 \<le> i \<and> i < PageSize then GetData p ! nat i else 0)"
    by (auto simp add: LoadPage_def split: if_splits)
  show "page_good pg"
  proof (rule page_good_cong[OF assms])
    fix i :: int assume "0 \<le> i" "i < PageSize"
    then show "Data pg i = Data p i"
      using nth_slice[of 0 i PageSize "Data p"] by (simp add: d GetData_def)
  qed
qed

lemma written_file_good:
  fixes c d :: "byte list" and k :: nat
  assumes c: "file_good c" and d: "image_good d" and ld: "length d = 4096"
  shows "file_good (take (k * 4096) (c @ replicate (k * 4096 - length c) 0) @ d
                    @ drop (k * 4096 + 4096) c)"
proof -
  define c' where "c' = take (k * 4096) (c @ replicate (k * 4096 - length c) 0) @ d
                    @ drop (k * 4096 + 4096) c"
  from c have dv: "4096 dvd length c"
    and pg: "\<And>j. (j + 1) * 4096 \<le> length c \<Longrightarrow> image_good (take 4096 (drop (j * 4096) c))"
    by (simp_all add: file_good_def page_consts)
  from dv obtain m where m: "length c = 4096 * m" by (auto simp add: dvd_def)
  have len: "length c' = max (k * 4096 + 4096) (length c)"
    by (simp add: c'_def ld)
  have nth: "c' ! i = (if i < k * 4096 then (if i < length c then c ! i else 0)
                       else if i < k * 4096 + 4096 then d ! (i - k * 4096) else c ! i)"
    if "i < length c'" for i
    using that len by (auto simp add: c'_def nth_append ld)
  have dv': "4096 dvd length c'" unfolding len m by (simp add: max_def)
  have "image_good (take 4096 (drop (j * 4096) c'))" if j: "(j + 1) * 4096 \<le> length c'" for j
  proof -
    have l: "length (take 4096 (drop (j * 4096) c')) = 4096" using j by simp
    have n: "take 4096 (drop (j * 4096) c') ! i = c' ! (j * 4096 + i)" if "i < 4096" for i
      using that j by simp
    consider "j < k" "(j + 1) * 4096 \<le> length c" | "j < k" "length c < (j + 1) * 4096"
      | "j = k" | "k < j" by linarith
    then show ?thesis
    proof cases
      case 1
      have "take 4096 (drop (j * 4096) c') = take 4096 (drop (j * 4096) c)"
      proof (rule nth_equalityI)
        show "length (take 4096 (drop (j * 4096) c')) = length (take 4096 (drop (j * 4096) c))"
          using l 1 by simp
        fix i assume "i < length (take 4096 (drop (j * 4096) c'))"
        with l have i: "i < 4096" by simp
        with 1 j show "take 4096 (drop (j * 4096) c') ! i = take 4096 (drop (j * 4096) c) ! i"
          by (simp add: nth)
      qed
      with pg[OF 1(2)] show ?thesis by simp
    next
      case 2
      with m have lc: "length c \<le> j * 4096" by auto
      have "take 4096 (drop (j * 4096) c') = replicate 4096 0"
      proof (rule nth_equalityI)
        show "length (take 4096 (drop (j * 4096) c')) = length (replicate 4096 (0 :: byte))"
          using l by simp
        fix i assume "i < length (take 4096 (drop (j * 4096) c'))"
        with l have i: "i < 4096" by simp
        with 2 j lc show "take 4096 (drop (j * 4096) c') ! i = replicate 4096 0 ! i"
          by (simp add: nth)
      qed
      with image_good_blank show ?thesis by simp
    next
      case 3
      have "take 4096 (drop (j * 4096) c') = d"
      proof (rule nth_equalityI)
        show "length (take 4096 (drop (j * 4096) c')) = length d" using l ld by simp
        fix i assume "i < length (take 4096 (drop (j * 4096) c'))"
        with l have i: "i < 4096" by simp
        with 3 j show "take 4096 (drop (j * 4096) c') ! i = d ! i"
          by (simp add: nth)
      qed
      with d show ?thesis by simp
    next
      case 4
      with j len have jc: "(j + 1) * 4096 \<le> length c" by (auto simp add: max_def split: if_splits)
      have "take 4096 (drop (j * 4096) c') = take 4096 (drop (j * 4096) c)"
      proof (rule nth_equalityI)
        show "length (take 4096 (drop (j * 4096) c')) = length (take 4096 (drop (j * 4096) c))"
          using l jc by simp
        fix i assume "i < length (take 4096 (drop (j * 4096) c'))"
        with l have i: "i < 4096" by simp
        with 4 j jc show "take 4096 (drop (j * 4096) c') ! i = take 4096 (drop (j * 4096) c) ! i"
          by (simp add: nth)
      qed
      with pg[OF jc] show ?thesis by simp
    qed
  qed
  with dv' show ?thesis unfolding c'_def[symmetric] by (simp add: file_good_def page_consts)
qed

lemma disk_good_WritePage:
  assumes g: "disk_good dm" and d: "image_good d"
  shows "disk_good (snd (WritePage t pid d dm))"
proof (cases "int (length d) \<noteq> PageSize \<or> sint pid * PageSize < 0")
  case True
  then show ?thesis using g by (auto simp add: WritePage_def Let_def disk_good_getFile)
next
  case False
  then have ld: "length d = 4096" and nn: "0 \<le> sint pid" by (auto simp add: page_consts)
  let ?k = "nat (sint pid)"
  let ?c = "fileContent dm t"
  from nn have o: "nat (sint pid * 4096) = ?k * 4096" by (simp add: nat_mult_distrib)
  from g have fg: "file_good ?c" by (simp add: disk_good_def)
  have fc: "fileContent (snd (WritePage t pid d dm)) t' =
      (if t' = t then take (?k * 4096) (?c @ replicate (?k * 4096 - length ?c) 0) @ d
                    @ drop (?k * 4096 + 4096) ?c
       else fileContent dm t')" for t'
    using False fileContent_getFile[of t dm] o
    by (simp add: WritePage_def Let_def fileContent_def page_consts)
  show ?thesis
    unfolding disk_good_def
  proof
    fix t'
    show "file_good (fileContent (snd (WritePage t pid d dm)) t')"
      using written_file_good[OF fg d ld, of ?k] g by (simp add: fc disk_good_def)
  qed
qed

section \<open>The page cache and the first-fit loop\<close>

lemma ReadPage_snd: "snd (ReadPage t pid dm) = getFile t dm"
  by (simp add: ReadPage_def Let_def)

lemma cachedPage_cachePage:
  "cachedPage (cachePage t pid pg fsl) t' pid' =
     (if t' = t \<and> pid' = pid then Some pg else cachedPage fsl t' pid')"
  by (simp add: cachedPage_def cachePage_def split: option.splits)

lemma cachePage_fields:
  "diskManager (cachePage t pid pg fsl) = diskManager fsl"
  "indexes (cachePage t pid pg fsl) = indexes fsl"
  "isOpen (cachePage t pid pg fsl) = isOpen fsl"
  "catalog (cachePage t pid pg fsl) = catalog fsl"
  by (simp_all add: cachePage_def)

lemma cache_good_cachePage:
  "cache_good fsl \<Longrightarrow> page_good pg \<Longrightarrow> cache_good (cachePage t pid pg fsl)"
  by (simp add: cache_good_def cachedPage_cachePage)

lemma cache_good_cached: "cache_good fsl \<Longrightarrow> cachedPage fsl t pid = Some p \<Longrightarrow> page_good p"
  unfolding cache_good_def by blast

lemma cache_good_diskManager: "cache_good (fsl\<lparr> diskManager := dm \<rparr>) = cache_good fsl"
  by (simp add: cache_good_def cachedPage_def)

lemma cache_good_indexes: "cache_good (fsl\<lparr> indexes := ix \<rparr>) = cache_good fsl"
  by (simp add: cache_good_def cachedPage_def)

lemma getPage_props:
  assumes c: "cache_good fsl" and d: "disk_good (diskManager fsl)"
    and gp: "getPage t pid fsl = (res, fsl1)"
  shows "cache_good fsl1" and "disk_good (diskManager fsl1)"
    and "indexes fsl1 = indexes fsl" and "isOpen fsl1 = isOpen fsl"
    and "catalog fsl1 = catalog fsl"
    and "\<And>pg. res = Inr pg \<Longrightarrow> page_good pg \<and> cachedPage fsl1 t pid = Some pg"
proof -
  obtain r dm where rp: "ReadPage t pid (diskManager fsl) = (r, dm)"
    by (cases "ReadPage t pid (diskManager fsl)")
  with ReadPage_snd[of t pid "diskManager fsl"] have dm: "dm = getFile t (diskManager fsl)"
    by simp
  then have dg: "disk_good dm" using d by (simp add: disk_good_getFile)
  have loaded: "page_good pg" if "r = Inr data" "LoadPage pid data = Some pg" for data pg
    using disk_good_read[OF d _ that(2), of t] rp that(1) by simp
  show "cache_good fsl1"
    using gp c rp loaded
    by (auto simp add: getPage_def cache_good_diskManager cache_good_cachePage
        split: option.splits sum.splits)
  show "disk_good (diskManager fsl1)"
    using gp d rp dg
    by (auto simp add: getPage_def cachePage_fields split: option.splits sum.splits)
  show "indexes fsl1 = indexes fsl" "isOpen fsl1 = isOpen fsl" "catalog fsl1 = catalog fsl"
    using gp by (auto simp add: getPage_def cachePage_fields split: option.splits sum.splits prod.splits)
  show "page_good pg \<and> cachedPage fsl1 t pid = Some pg" if "res = Inr pg" for pg
    using gp that rp loaded cache_good_cached[OF c, of t pid]
    by (auto simp add: getPage_def cachedPage_cachePage split: option.splits sum.splits)
qed

lemma page_good_InsertRecord_no_panic: "page_good p \<Longrightarrow> fst (InsertRecord r p) \<noteq> Inl Panic"
  using InsertRecord_no_panic[of p r]
  by (auto simp add: page_good_def page_inv_def blank_InsertRecord)

lemma insertLoop_props:
  "cache_good fsl \<Longrightarrow> disk_good (diskManager fsl) \<Longrightarrow> insertLoop t b i n fsl = (res, fsl') \<Longrightarrow>
     cache_good fsl' \<and> disk_good (diskManager fsl') \<and>
     indexes fsl' = indexes fsl \<and> isOpen fsl' = isOpen fsl \<and> catalog fsl' = catalog fsl \<and>
     (\<forall>e. res \<noteq> Inl e) \<and>
     (\<forall>pid sid. res = Inr (Some (pid, sid)) \<longrightarrow>
        (\<exists>p p'. page_good p \<and> InsertRecord b p = (Inr sid, p') \<and> cachedPage fsl' t pid = Some p'))"
proof (induction t b i n fsl arbitrary: res fsl' rule: insertLoop.induct)
  case (1 t b i n fsl)
  show ?case
  proof (cases "i < n")
    case False
    with "1.prems" show ?thesis by (auto simp add: insertLoop.simps[of t b i n fsl])
  next
    case True
    obtain gr fsl1 where gp: "getPage t (word_of_int i) fsl = (gr, fsl1)"
      by (cases "getPage t (word_of_int i) fsl")
    note g = getPage_props[OF "1.prems"(1,2) gp]
    show ?thesis
    proof (cases gr)
      case (Inl e)
      with "1.prems"(3) True gp have r: "insertLoop t b (i + 1) n fsl1 = (res, fsl')"
        by (simp add: insertLoop.simps[of t b i n fsl])
      from "1.IH"(1)[OF True gp[symmetric] Inl g(1,2) r] g(3,4,5) show ?thesis by simp
    next
      case (Inr page)
      from g(6)[OF Inr] have hp: "page_good page" by simp
      obtain ir page' where ins: "InsertRecord b page = (ir, page')"
        by (cases "InsertRecord b page")
      from page_good_InsertRecord[OF hp, of b] ins have hp': "page_good page'" by simp
      note cg = cache_good_cachePage[OF g(1) hp', of t "word_of_int i"]
      show ?thesis
      proof (cases ir)
        case (Inr sid)
        with "1.prems"(3) True gp \<open>gr = Inr page\<close> ins
        have r: "res = Inr (Some (word_of_int i, sid))"
          "fsl' = cachePage t (word_of_int i) page' fsl1"
          by (simp_all add: insertLoop.simps[of t b i n fsl])
        from cg r g(2,3,4,5) hp ins Inr show ?thesis
          by (auto simp add: cachePage_fields cachedPage_cachePage)
      next
        case (Inl e)
        note ie = this
        from page_good_InsertRecord_no_panic[OF hp, of b] ins ie have np: "e \<noteq> Panic" by auto
        from "1.prems"(3) \<open>i < n\<close> gp \<open>gr = Inr page\<close> ins ie np
        have r: "insertLoop t b (i + 1) n (cachePage t (word_of_int i) page' fsl1) = (res, fsl')"
          by (simp add: insertLoop.simps[of t b i n fsl])
        have dg: "disk_good (diskManager (cachePage t (word_of_int i) page' fsl1))"
          using g(2) by (simp add: cachePage_fields)
        from "1.IH"(2)[OF \<open>i < n\<close> gp[symmetric] \<open>gr = Inr page\<close> ins[symmetric] ie np cg dg r]
          g(3,4,5)
        show ?thesis by (simp add: cachePage_fields)
      qed
    qed
  qed
qed

lemma insertRecord_props:
  assumes c: "cache_good fsl" and d: "disk_good (diskManager fsl)"
    and ir: "insertRecord t b fsl = (res, fsl')"
  shows "cache_good fsl'" and "disk_good (diskManager fsl')"
    and "indexes fsl' = indexes fsl" and "isOpen fsl' = isOpen fsl"
    and "catalog fsl' = catalog fsl"
    and "\<And>pid sid. res = Inr (pid, sid) \<Longrightarrow>
           \<exists>p p'. page_good p \<and> InsertRecord b p = (Inr sid, p') \<and> cachedPage fsl' t pid = Some p'"
proof -
  obtain lr fsl1 where
    lp: "insertLoop t b 0 (sint (GetPageCount t (diskManager fsl))) fsl = (lr, fsl1)"
    by (cases "insertLoop t b 0 (sint (GetPageCount t (diskManager fsl))) fsl")
  note l = insertLoop_props[OF c d lp]
  from l obtain found where lr: "lr = Inr found" by (cases lr) auto
  have "cache_good fsl' \<and> disk_good (diskManager fsl') \<and>
    indexes fsl' = indexes fsl \<and> isOpen fsl' = isOpen fsl \<and> catalog fsl' = catalog fsl \<and>
    (\<forall>pid sid. res = Inr (pid, sid) \<longrightarrow>
       (\<exists>p p'. page_good p \<and> InsertRecord b p = (Inr sid, p') \<and> cachedPage fsl' t pid = Some p'))"
  proof (cases found)
    case (Some placed)
    with ir lp lr have "res = Inr placed" "fsl' = fsl1"
      by (simp_all add: insertRecord_def Let_def)
    with l lr Some show ?thesis by (cases placed) simp
  next
    case None
    obtain newPageID dm where ap: "AllocatePage t (diskManager fsl1) = (newPageID, dm)"
      by (cases "AllocatePage t (diskManager fsl1)")
    with disk_good_AllocatePage[of t "diskManager fsl1"] l have dg: "disk_good dm" by simp
    obtain r newPage where ins: "InsertRecord b (NewPage newPageID) = (r, newPage)"
      by (cases "InsertRecord b (NewPage newPageID)")
    from page_good_InsertRecord[OF page_good_NewPage, of b newPageID] ins
    have pg: "page_good newPage" by simp
    show ?thesis
    proof (cases r)
      case (Inl e)
      with ir lp lr None ap ins have "res = Inl e" "fsl' = fsl1\<lparr> diskManager := dm \<rparr>"
        by (simp_all add: insertRecord_def Let_def)
      with l dg show ?thesis by (simp add: cache_good_diskManager)
    next
      case (Inr sid)
      with ir lp lr None ap ins have "res = Inr (newPageID, sid)"
        "fsl' = cachePage t newPageID newPage (fsl1\<lparr> diskManager := dm \<rparr>)"
        by (simp_all add: insertRecord_def Let_def)
      with l dg pg ins Inr page_good_NewPage[of newPageID] show ?thesis
        by (auto simp add: cache_good_diskManager cache_good_cachePage cachePage_fields
            cachedPage_cachePage)
    qed
  qed
  then show "cache_good fsl'" "disk_good (diskManager fsl')"
    "indexes fsl' = indexes fsl" "isOpen fsl' = isOpen fsl" "catalog fsl' = catalog fsl"
    "\<And>pid sid. res = Inr (pid, sid) \<Longrightarrow>
           \<exists>p p'. page_good p \<and> InsertRecord b p = (Inr sid, p') \<and> cachedPage fsl' t pid = Some p'"
    by simp_all
qed

lemma getPage_cached: "cachedPage fsl t pid = Some pg \<Longrightarrow> getPage t pid fsl = (Inr pg, fsl)"
  by (simp add: getPage_def)

lemma Insert_Inr:
  assumes "Insert t b fsl = (Inr lid, fsl')"
  obtains pid sid fsl1 si where
    "isOpen fsl" "insertRecord t b fsl = (Inr (pid, sid), fsl1)" "indexes fsl1 t = Some si"
    "lid = nextID si"
    "fsl' = fsl1\<lparr> indexes := (indexes fsl1)(t \<mapsto>
              snd (SimpleIndex_Insert \<lparr> ridPageID = pid, ridSlotID = sid \<rparr> si)) \<rparr>"
  using assms
  by (auto simp add: Insert_def SimpleIndex_Insert_def split: if_splits sum.splits prod.splits option.splits)

lemma getPage_frame:
  "getPage t pid fsl = (res, fsl1) \<Longrightarrow> indexes fsl1 = indexes fsl \<and> isOpen fsl1 = isOpen fsl"
  by (auto simp add: getPage_def cachePage_fields split: option.splits sum.splits prod.splits)

section \<open>The invariant of the engine\<close>

lemma layer_invD:
  assumes "layer_inv fsl"
  shows "cache_good fsl" and "disk_good (diskManager fsl)"
    and "\<And>t si. indexes fsl t = Some si \<Longrightarrow> index_good si"
  using assms by (auto simp add: layer_inv_def)

lemma index_goodD: "index_good si \<Longrightarrow> SimpleIndex_Search lid si = Some rid \<Longrightarrow> 0 \<le> ridSlotID rid"
  unfolding index_good_def SimpleIndex_Search_def by blast

lemma index_good_NewSimpleIndex: "index_good NewSimpleIndex"
  by (simp add: index_good_def NewSimpleIndex_def)

lemma index_good_Insert:
  "index_good si \<Longrightarrow> 0 \<le> ridSlotID rid \<Longrightarrow> index_good (snd (SimpleIndex_Insert rid si))"
  by (simp add: index_good_def SimpleIndex_Insert_def)

lemma index_good_Delete: "index_good si \<Longrightarrow> index_good (snd (SimpleIndex_Delete lid si))"
  by (simp add: index_good_def SimpleIndex_Delete_def)

lemma index_good_Load:
  "(\<And>si. idxFile = Some si \<Longrightarrow> index_good si) \<Longrightarrow>
     index_good (SimpleIndex_Load idxFile NewSimpleIndex)"
  by (cases idxFile) (simp_all add: SimpleIndex_Load_def NewSimpleIndex_def index_good_def)

lemma index_good_Save: "index_good si \<Longrightarrow> SimpleIndex_Save si = Some s \<Longrightarrow> index_good s"
  by (auto simp add: SimpleIndex_Save_def index_good_def)

lemma layer_inv_getPage:
  assumes "layer_inv fsl" shows "layer_inv (snd (getPage t pid fsl))"
proof -
  obtain res fsl1 where gp: "getPage t pid fsl = (res, fsl1)" by (cases "getPage t pid fsl")
  note g = getPage_props[OF layer_invD(1,2)[OF assms] gp]
  from g(1,2,3) layer_invD(3)[OF assms] show ?thesis by (simp add: gp layer_inv_def)
qed

lemma layer_inv_Insert:
  assumes inv: "layer_inv fsl" shows "layer_inv (snd (Insert t b fsl))"
proof -
  obtain res fsl1 where ir: "insertRecord t b fsl = (res, fsl1)"
    by (cases "insertRecord t b fsl")
  note r = insertRecord_props[OF layer_invD(1,2)[OF inv] ir]
  from r(1,2,3) layer_invD(3)[OF inv] have inv1: "layer_inv fsl1" by (simp add: layer_inv_def)
  show ?thesis
  proof (cases res)
    case (Inl e)
    with ir inv inv1 show ?thesis by (simp add: Insert_def)
  next
    case (Inr placed)
    obtain pid sid where placed: "placed = (pid, sid)" by (cases placed)
    from r(6)[of pid sid] Inr placed obtain p p' where
      pg: "page_good p" and ins: "InsertRecord b p = (Inr sid, p')" by blast
    from page_good_Inr_InsertRecord[OF pg ins] have "header_ok p" by (simp add: page_inv_def)
    from InsertRecord_effect(1)[OF this ins] have sid: "0 \<le> sid" by simp
    show ?thesis
    proof (cases "indexes fsl1 t")
      case None
      with ir Inr placed inv inv1 show ?thesis by (simp add: Insert_def)
    next
      case (Some si)
      let ?si = "snd (SimpleIndex_Insert \<lparr> ridPageID = pid, ridSlotID = sid \<rparr> si)"
      from layer_invD(3)[OF inv1 Some] sid have "index_good ?si"
        by (intro index_good_Insert) simp_all
      with inv1 have "layer_inv (fsl1\<lparr> indexes := (indexes fsl1)(t \<mapsto> ?si) \<rparr>)"
        by (simp add: layer_inv_def cache_good_indexes)
      with ir Inr placed Some inv show ?thesis
        by (auto simp add: Insert_def split: prod.splits)
    qed
  qed
qed

lemma layer_inv_Get:
  assumes inv: "layer_inv fsl" shows "layer_inv (snd (Get t lid fsl))"
proof -
  have "layer_inv fsl1" if "getPage t pid fsl = (res, fsl1)" for pid res fsl1
    using layer_inv_getPage[OF inv, of t pid] that by simp
  with inv show ?thesis
    by (auto simp add: Get_def split: option.splits prod.splits sum.splits)
qed

lemma layer_inv_cachePage:
  "layer_inv fsl \<Longrightarrow> page_good pg \<Longrightarrow> layer_inv (cachePage t pid pg fsl)"
  by (simp add: layer_inv_def cache_good_cachePage cachePage_fields)

lemma layer_inv_Update:
  assumes inv: "layer_inv fsl" shows "layer_inv (snd (Update t lid r fsl))"
proof (cases "isOpen fsl")
  case False
  with inv show ?thesis by (simp add: Update_def)
next
  case True
  show ?thesis
  proof (cases "indexes fsl t")
    case None
    with inv True show ?thesis by (simp add: Update_def)
  next
    case (Some si)
    show ?thesis
    proof (cases "SimpleIndex_Search lid si")
      case None
      with inv True Some show ?thesis by (simp add: Update_def)
    next
      case (Some rid)
      from index_goodD[OF layer_invD(3)[OF inv \<open>indexes fsl t = Some si\<close>] Some]
      have sid: "0 \<le> ridSlotID rid" .
      obtain res fsl1 where gp: "getPage t (ridPageID rid) fsl = (res, fsl1)"
        by (cases "getPage t (ridPageID rid) fsl")
      from layer_inv_getPage[OF inv, of t "ridPageID rid"] gp have inv1: "layer_inv fsl1" by simp
      note g = getPage_props[OF layer_invD(1,2)[OF inv] gp]
      show ?thesis
      proof (cases res)
        case (Inl e)
        with True \<open>indexes fsl t = Some si\<close> Some gp inv1 show ?thesis by (simp add: Update_def)
      next
        case (Inr page)
        from g(6)[OF Inr] have "page_good page" by simp
        obtain ur page' where up: "UpdateRecord (ridSlotID rid) r page = (ur, page')"
          by (cases "UpdateRecord (ridSlotID rid) r page")
        from page_good_UpdateRecord[OF \<open>page_good page\<close> sid, of r] up
        have "page_good page'" by simp
        then have "layer_inv (cachePage t (ridPageID rid) page' fsl1)"
          by (rule layer_inv_cachePage[OF inv1])
        with True \<open>indexes fsl t = Some si\<close> Some gp Inr up show ?thesis
          by (simp add: Update_def)
      qed
    qed
  qed
qed

lemma layer_inv_DeleteRecord:
  assumes inv: "layer_inv fsl" shows "layer_inv (snd (FSL_DeleteRecord t lid fsl))"
proof (cases "isOpen fsl")
  case False
  with inv show ?thesis by (simp add: FSL_DeleteRecord_def)
next
  case True
  show ?thesis
  proof (cases "indexes fsl t")
    case None
    with inv True show ?thesis by (simp add: FSL_DeleteRecord_def)
  next
    case (Some si)
    show ?thesis
    proof (cases "SimpleIndex_Search lid si")
      case None
      with inv True Some show ?thesis by (simp add: FSL_DeleteRecord_def)
    next
      case (Some rid)
      from index_goodD[OF layer_invD(3)[OF inv \<open>indexes fsl t = Some si\<close>] Some]
      have sid: "0 \<le> ridSlotID rid" .
      obtain res fsl1 where gp: "getPage t (ridPageID rid) fsl = (res, fsl1)"
        by (cases "getPage t (ridPageID rid) fsl")
      from layer_inv_getPage[OF inv, of t "ridPageID rid"] gp have inv1: "layer_inv fsl1" by simp
      note g = getPage_props[OF layer_invD(1,2)[OF inv] gp]
      show ?thesis
      proof (cases res)
        case (Inl e)
        with True \<open>indexes fsl t = Some si\<close> Some gp inv1 show ?thesis
          by (simp add: FSL_DeleteRecord_def)
      next
        case (Inr page)
        from g(6)[OF Inr] have "page_good page" by simp
        obtain dr page' where dp: "DeleteRecord (ridSlotID rid) page = (dr, page')"
          by (cases "DeleteRecord (ridSlotID rid) page")
        from page_good_DeleteRecord[OF \<open>page_good page\<close> sid] dp
        have "page_good page'" by simp
        then have c: "layer_inv (cachePage t (ridPageID rid) page' fsl1)" (is "layer_inv ?f")
          by (rule layer_inv_cachePage[OF inv1])
        have "layer_inv (?f\<lparr> indexes := (indexes fsl1)(t \<mapsto> si') \<rparr>)"
          if "indexes fsl1 t = Some si1" "SimpleIndex_Delete lid si1 = (r, si')" for si1 r si'
          using c index_good_Delete[OF layer_invD(3)[OF inv1 that(1)], of lid] that(2)
            layer_invD(3)[OF inv1]
          by (auto simp add: layer_inv_def cache_good_indexes cachePage_fields)
        with c True \<open>indexes fsl t = Some si\<close> Some gp Inr dp show ?thesis
          by (auto simp add: FSL_DeleteRecord_def split: prod.splits sum.splits option.splits)
      qed
    qed
  qed
qed

lemma layer_inv_CreateTable:
  assumes inv: "layer_inv fsl" shows "layer_inv (snd (CreateTable t s fsl))"
  using inv
  by (auto simp add: CreateTable_def layer_inv_def cache_good_def cachedPage_def
      index_good_NewSimpleIndex split: option.splits if_splits)

lemma disk_good_NewDiskManager: "disk_good (NewDiskManager (fileData dm)) = disk_good dm"
  by (rule disk_good_cong) (simp add: fileContent_def NewDiskManager_def)

lemma layer_inv_NewFileStorageLayer:
  "disk_good dm \<Longrightarrow> layer_inv (NewFileStorageLayer (fileData dm))"
  by (simp add: layer_inv_def NewFileStorageLayer_def disk_good_NewDiskManager cache_good_def
      cachedPage_def)

lemma layer_inv_Open:
  assumes inv: "layer_inv fsl" and st: "\<And>t si. idxFiles st t = Some si \<Longrightarrow> index_good si"
  shows "layer_inv (snd (Open st fsl))"
proof (cases "isOpen fsl")
  case True
  with inv show ?thesis by (simp add: Open_def)
next
  case False
  have ld: "index_good (SimpleIndex_Load (idxFiles st t) NewSimpleIndex)" for t
    by (rule index_good_Load) (rule st)
  from inv have c: "cache_good fsl" and d: "disk_good (diskManager fsl)"
    and ix: "\<And>t si. indexes fsl t = Some si \<Longrightarrow> index_good si"
    by (auto simp add: layer_inv_def)
  from c have "cache_good (snd (Open st fsl))"
    unfolding cache_good_def
    by (auto simp add: Open_def False Let_def cachedPage_def split: option.splits if_splits)
  moreover from d have "disk_good (diskManager (snd (Open st fsl)))"
    by (simp add: Open_def False Let_def disk_good_NewDiskManager)
  moreover have "index_good si" if "indexes (snd (Open st fsl)) t = Some si" for t si
    using that ld[of t] ix[of t si]
    by (auto simp add: Open_def False Let_def split: if_splits)
  ultimately show ?thesis by (simp add: layer_inv_def)
qed

lemma layer_inv_flushPage:
  assumes inv: "layer_inv fsl" shows "layer_inv (flushPage t pid fsl)"
proof (cases "cachedPage fsl t pid")
  case None
  with inv show ?thesis by (simp add: flushPage_def)
next
  case (Some page)
  from cache_good_cached[OF layer_invD(1)[OF inv] Some] have pg: "page_good page" .
  then have "page_good (page\<lparr> dirty := False \<rparr>)" by (rule page_good_cong) simp
  moreover from disk_good_WritePage[OF layer_invD(2)[OF inv] image_good_GetData[OF pg], of t pid]
  have "disk_good (snd (WritePage t pid (GetData page) (diskManager fsl)))" .
  ultimately show ?thesis
    using inv Some
    by (auto simp add: flushPage_def layer_inv_def cache_good_diskManager cache_good_cachePage
        cachePage_fields split: prod.splits sum.splits)
qed

lemma layer_inv_closeLayer: "layer_inv fsl \<Longrightarrow> layer_inv (closeLayer fsl)"
proof -
  have "disk_good (DiskManager_Close dm) = disk_good dm" for dm
    by (rule disk_good_cong) (simp add: fileContent_def DiskManager_Close_def)
  then show "layer_inv fsl \<Longrightarrow> layer_inv (closeLayer fsl)"
    by (simp add: layer_inv_def closeLayer_def cache_good_def cachedPage_def)
qed

lemma disk_good_empty: "disk_good (NewDiskManager Map.empty)"
  by (simp add: disk_good_def fileContent_def NewDiskManager_def file_good_def page_consts)

lemma reachable_engine_inv: "reachable w \<Longrightarrow> engine_inv w"
proof (induction rule: reachable.induct)
  case start
  show ?case
    using layer_inv_NewFileStorageLayer[OF disk_good_empty]
    by (simp add: engine_inv_def NewDiskManager_def)
next
  case (restart w)
  then show ?case
    using layer_inv_NewFileStorageLayer[of "diskManager (layer w)"]
    by (simp add: engine_inv_def layer_inv_def)
next
  case (opened w)
  then show ?case using layer_inv_Open[of "layer w" "stored w"] by (simp add: engine_inv_def)
next
  case (created w tableName schema)
  then show ?case by (simp add: engine_inv_def layer_inv_CreateTable)
next
  case (inserted w tableName recordData)
  then show ?case by (simp add: engine_inv_def layer_inv_Insert)
next
  case (got w tableName recordID)
  then show ?case by (simp add: engine_inv_def layer_inv_Get)
next
  case (updated w tableName recordID updatedRecord)
  then show ?case by (simp add: engine_inv_def layer_inv_Update)
next
  case (deleted w tableName recordID)
  then show ?case by (simp add: engine_inv_def layer_inv_DeleteRecord)
next
  case (scanned w tableName pageID)
  then show ?case by (simp add: engine_inv_def layer_inv_getPage)
next
  case (catalog_saved w)
  then show ?case by (simp add: engine_inv_def)
next
  case (index_saved w tableName si)
  then show ?case
    using index_good_Save[of si] layer_invD(3)[of "layer w" tableName si]
    by (auto simp add: engine_inv_def)
next
  case (page_flushed w tableName pageID)
  then show ?case by (simp add: engine_inv_def layer_inv_flushPage)
next
  case (closed w)
  then show ?case by (simp add: engine_inv_def layer_inv_closeLayer)
qed

section \<open>Insert, then Get\<close>

lemma usersLayer_eq:
  "usersLayer =
     \<lparr> diskManager = NewDiskManager Map.empty, catalog = [''users'' \<mapsto> usersSchema],
       pageCache = [''users'' \<mapsto> Map.empty], indexes = [''users'' \<mapsto> NewSimpleIndex],
       isOpen = True \<rparr>"
  by (simp add: usersLayer_def CreateTable_def openedLayer_def)

lemma Open_empty_directory:
  "Open \<lparr> metaFile = None, idxFiles = Map.empty \<rparr> (NewFileStorageLayer Map.empty)
     = (Inr (), openedLayer Map.empty)"
  by (simp add: Open_def NewFileStorageLayer_def openedLayer_def NewDiskManager_def)

lemma reachable_usersLayer:
  "reachable \<lparr> layer = usersLayer,
               stored = \<lparr> metaFile = Some [''users'' \<mapsto> usersSchema], idxFiles = Map.empty \<rparr> \<rparr>"
  using reachable.created[OF reachable.opened[OF reachable.start], of "''users''" usersSchema]
  by (simp add: Open_empty_directory usersLayer_eq CreateTable_def openedLayer_def)

lemma Insert_then_Get_layer:
  assumes inv: "layer_inv fsl" and ne: "b \<noteq> []" and ins: "Insert t b fsl = (Inr lid, fsl')"
  shows "\<exists>si rid pg.
           indexes fsl' t = Some si \<and> SimpleIndex_Search lid si = Some rid \<and>
           fst (insertRecord t b fsl) = Inr (ridPageID rid, ridSlotID rid) \<and>
           cachedPage fsl' t (ridPageID rid) = Some pg \<and>
           GetRecord (ridSlotID rid) pg = Inr b \<and>
           Get t lid fsl' = (Inr b, fsl')"
proof -
  from ins obtain pid sid fsl1 si where
    op: "isOpen fsl" and ir: "insertRecord t b fsl = (Inr (pid, sid), fsl1)" and
    si: "indexes fsl1 t = Some si" and lid: "lid = nextID si" and
    f: "fsl' = fsl1\<lparr> indexes := (indexes fsl1)(t \<mapsto>
              snd (SimpleIndex_Insert \<lparr> ridPageID = pid, ridSlotID = sid \<rparr> si)) \<rparr>"
    by (rule Insert_Inr)
  note r = insertRecord_props[OF layer_invD(1,2)[OF inv] ir]
  from r(6)[of pid sid] obtain p p' where pg: "page_good p"
    and pi: "InsertRecord b p = (Inr sid, p')"
    and c: "cachedPage fsl1 t pid = Some p'" by blast
  from page_good_Inr_InsertRecord[OF pg pi] have hp: "header_ok p" by (simp add: page_inv_def)
  let ?rid = "\<lparr> ridPageID = pid, ridSlotID = sid \<rparr>"
  let ?si = "snd (SimpleIndex_Insert ?rid si)"
  have i': "indexes fsl' t = Some ?si" by (simp add: f)
  have s: "SimpleIndex_Search lid ?si = Some ?rid"
    by (simp add: SimpleIndex_Search_def SimpleIndex_Insert_def lid)
  have c': "cachedPage fsl' t pid = Some p'" using c by (simp add: f cachedPage_def)
  have gr: "GetRecord sid p' = Inr b" by (rule GetRecord_after_InsertRecord[OF hp pi ne])
  have op': "isOpen fsl'" using op r(4) by (simp add: f)
  have "Get t lid fsl' = (Inr b, fsl')"
    using op' i' s gr getPage_cached[OF c'] by (simp add: Get_def)
  with i' s c' gr ir show ?thesis by simp
qed


lemma Insert_usersLayer:
  assumes len: "length b \<le> 4074"
  shows "Insert ''users'' b usersLayer =
     (Inr 1,
      \<lparr> diskManager = \<lparr> files = {''users''}, pageCounter = [''users'' \<mapsto> 1],
                         fileData = [''users'' \<mapsto> []] \<rparr>,
        catalog = [''users'' \<mapsto> usersSchema],
        pageCache = [''users'' \<mapsto> [0 \<mapsto> snd (InsertRecord b (NewPage 0))]],
        indexes = [''users'' \<mapsto>
                     \<lparr> index = [1 \<mapsto> \<lparr> ridPageID = 0, ridSlotID = 0 \<rparr>], nextID = 2 \<rparr>],
        isOpen = True \<rparr>)"
proof -
  from InsertRecord_NewPage[OF len, of 0] obtain p' where
    ins: "InsertRecord b (NewPage 0) = (Inr 0, p')" by auto
  have g: "go_int 2 = 2" by (rule go_int_id) simp_all
  have lp: "insertLoop ''users'' b 0 0 usersLayer = (Inr None, usersLayer)"
    by (simp add: insertLoop.simps)
  have ap: "AllocatePage ''users'' (NewDiskManager Map.empty) =
      (0, \<lparr> files = {''users''}, pageCounter = [''users'' \<mapsto> 1], fileData = [''users'' \<mapsto> []] \<rparr>)"
    by (simp add: AllocatePage_def getFile_def NewDiskManager_def Let_def PageSize_def)
  have ir: "insertRecord ''users'' b usersLayer =
      (Inr (0, 0), cachePage ''users'' 0 p'
         (usersLayer\<lparr> diskManager := \<lparr> files = {''users''}, pageCounter = [''users'' \<mapsto> 1],
                                         fileData = [''users'' \<mapsto> []] \<rparr> \<rparr>))"
    using lp by (simp add: insertRecord_def GetPageCount_def usersLayer_eq NewDiskManager_def ap[unfolded NewDiskManager_def] ins)
  show ?thesis
    by (simp add: Insert_def ir ins) 
      (simp add: usersLayer_eq TableExists_def cachePage_def SimpleIndex_Insert_def NewSimpleIndex_def g)
qed

lemma Insert_succeeds:
  assumes inv: "layer_inv fsl" and op: "isOpen fsl" and te: "TableExists t fsl"
    and si: "indexes fsl t = Some si" and len: "length b \<le> 4074"
  shows "fst (Insert t b fsl) = Inr (nextID si)"
proof -
  obtain res fsl1 where ir: "insertRecord t b fsl = (res, fsl1)"
    by (cases "insertRecord t b fsl")
  note r = insertRecord_props[OF layer_invD(1,2)[OF inv] ir]
  obtain lr fsl0 where
    lp: "insertLoop t b 0 (sint (GetPageCount t (diskManager fsl))) fsl = (lr, fsl0)"
    by (cases "insertLoop t b 0 (sint (GetPageCount t (diskManager fsl))) fsl")
  from insertLoop_props[OF layer_invD(1,2)[OF inv] lp] obtain found where lr: "lr = Inr found"
    by (cases lr) auto
  have "\<exists>placed. res = Inr placed"
  proof (cases found)
    case (Some placed)
    with ir lp lr show ?thesis by (auto simp add: insertRecord_def Let_def)
  next
    case None
    obtain newPageID dm where ap: "AllocatePage t (diskManager fsl0) = (newPageID, dm)"
      by (cases "AllocatePage t (diskManager fsl0)")
    from InsertRecord_NewPage[OF len, of newPageID] obtain p' where
      "InsertRecord b (NewPage newPageID) = (Inr 0, p')" by auto
    with ir lp lr None ap show ?thesis by (auto simp add: insertRecord_def Let_def)
  qed
  then obtain pid sid where "res = Inr (pid, sid)" by auto
  with ir op te si r(3) show ?thesis
    by (simp add: Insert_def SimpleIndex_Insert_def)
qed

lemma InsertRecord_dirty: "InsertRecord r p = (Inr sid, p') \<Longrightarrow> dirty p'"
  by (erule InsertRecord_Inr) (simp add: writeHeader_def)

lemma Insert_oversized_usersLayer:
  "Insert ''users'' (replicate 4075 0) usersLayer =
     (Inl PageFull,
      usersLayer\<lparr> diskManager := \<lparr> files = {''users''}, pageCounter = [''users'' \<mapsto> 1],
                                    fileData = [''users'' \<mapsto> []] \<rparr> \<rparr>)"
proof -
  have full: "InsertRecord (replicate 4075 0) (NewPage 0) = (Inl PageFull, NewPage 0)"
    by (rule InsertRecord_full) (simp add: NewPage_fields page_consts)
  have lp: "insertLoop ''users'' (replicate 4075 0) 0 0 usersLayer = (Inr None, usersLayer)"
    by (simp add: insertLoop.simps)
  have ap: "AllocatePage ''users'' (NewDiskManager Map.empty) =
      (0, \<lparr> files = {''users''}, pageCounter = [''users'' \<mapsto> 1], fileData = [''users'' \<mapsto> []] \<rparr>)"
    by (simp add: AllocatePage_def getFile_def NewDiskManager_def Let_def PageSize_def)
  have ir: "insertRecord ''users'' (replicate 4075 0) usersLayer =
      (Inl PageFull,
       usersLayer\<lparr> diskManager := \<lparr> files = {''users''}, pageCounter = [''users'' \<mapsto> 1],
                                     fileData = [''users'' \<mapsto> []] \<rparr> \<rparr>)"
    using lp
    by (simp add: insertRecord_def GetPageCount_def usersLayer_eq NewDiskManager_def
        ap[unfolded NewDiskManager_def] full)
  show ?thesis
    by (simp add: Insert_def ir) (simp add: usersLayer_eq TableExists_def)
qed

lemma Insert_after_oversized:
  "Insert ''users'' [1, 2, 3] (snd (Insert ''users'' (replicate 4075 0) usersLayer)) =
     (Inr 1,
      \<lparr> diskManager = \<lparr> files = {''users''}, pageCounter = [''users'' \<mapsto> 2],
                         fileData = [''users'' \<mapsto> []] \<rparr>,
        catalog = [''users'' \<mapsto> usersSchema],
        pageCache = [''users'' \<mapsto> [1 \<mapsto> snd (InsertRecord [1, 2, 3] (NewPage 1))]],
        indexes = [''users'' \<mapsto>
                     \<lparr> index = [1 \<mapsto> \<lparr> ridPageID = 1, ridSlotID = 0 \<rparr>], nextID = 2 \<rparr>],
        isOpen = True \<rparr>)"
proof -
  define dm1 :: DiskManager where
    "dm1 = \<lparr> files = {''users''}, pageCounter = [''users'' \<mapsto> 1], fileData = [''users'' \<mapsto> []] \<rparr>"
  define l1 where "l1 = usersLayer\<lparr> diskManager := dm1 \<rparr>"
  have l1: "snd (Insert ''users'' (replicate 4075 0) usersLayer) = l1"
    by (simp add: Insert_oversized_usersLayer l1_def dm1_def)
  from InsertRecord_NewPage[of "[1, 2, 3]" 1] obtain p' where
    ins: "InsertRecord [1, 2, 3] (NewPage 1) = (Inr 0, p')" by auto
  have g: "go_int 2 = 2" by (rule go_int_id) simp_all
  have rp: "ReadPage ''users'' 0 dm1 = (Inl IOError, dm1)"
    by (simp add: ReadPage_def getFile_def dm1_def Let_def PageSize_def)
  have gp: "getPage ''users'' 0 l1 = (Inl IOError, l1)"
    by (simp add: getPage_def l1_def usersLayer_eq cachedPage_def rp)
  have lp: "insertLoop ''users'' [1, 2, 3] 0 1 l1 = (Inr None, l1)"
    by (simp add: insertLoop.simps[of _ _ 0] insertLoop.simps[of _ _ 1] gp)
  have ap: "AllocatePage ''users'' dm1 =
      (1, \<lparr> files = {''users''}, pageCounter = [''users'' \<mapsto> 2], fileData = [''users'' \<mapsto> []] \<rparr>)"
    by (simp add: AllocatePage_def getFile_def dm1_def Let_def)
  have pc: "sint (GetPageCount ''users'' dm1) = 1"
    by (simp add: GetPageCount_def dm1_def)
  have dml: "diskManager l1 = dm1" by (simp add: l1_def)
  have ir: "insertRecord ''users'' [1, 2, 3] l1 =
      (Inr (1, 0), cachePage ''users'' 1 p'
         (l1\<lparr> diskManager := \<lparr> files = {''users''}, pageCounter = [''users'' \<mapsto> 2],
                                 fileData = [''users'' \<mapsto> []] \<rparr> \<rparr>))"
    by (simp add: insertRecord_def pc Let_def lp dml ap ins)
  show ?thesis
    unfolding l1
    by (simp add: Insert_def ir ins)
      (simp add: l1_def usersLayer_eq TableExists_def cachePage_def SimpleIndex_Insert_def
        NewSimpleIndex_def g)
qed

lemma holeLayer_eq:
  "holeLayer =
     \<lparr> diskManager =
         \<lparr> files = {''users''}, pageCounter = [''users'' \<mapsto> 2],
           fileData = [''users'' \<mapsto>
             replicate 4096 0 @ GetData (snd (InsertRecord [1, 2, 3] (NewPage 1)))] \<rparr>,
       catalog = [''users'' \<mapsto> usersSchema],
       pageCache = [''users'' \<mapsto>
         [1 \<mapsto> (snd (InsertRecord [1, 2, 3] (NewPage 1)))\<lparr> dirty := False \<rparr>]],
       indexes = [''users'' \<mapsto>
                    \<lparr> index = [1 \<mapsto> \<lparr> ridPageID = 1, ridSlotID = 0 \<rparr>], nextID = 2 \<rparr>],
       isOpen = True \<rparr>"
proof -
  from InsertRecord_NewPage[of "[1, 2, 3]" 1] obtain p' where
    ins: "InsertRecord [1, 2, 3] (NewPage 1) = (Inr 0, p')" by auto
  from InsertRecord_dirty[OF ins] have d: "dirty p'" .
  have wp: "WritePage ''users'' 1 (GetData p')
       \<lparr> files = {''users''}, pageCounter = [''users'' \<mapsto> 2], fileData = [''users'' \<mapsto> []] \<rparr> =
     (Inr (), \<lparr> files = {''users''}, pageCounter = [''users'' \<mapsto> 2],
                fileData = [''users'' \<mapsto> replicate 4096 0 @ GetData p'] \<rparr>)"
    by (simp add: WritePage_def length_GetData getFile_def Let_def PageSize_def)
  show ?thesis
    unfolding holeLayer_def
    by (simp add: Insert_after_oversized flushPage_def cachedPage_def ins d wp cachePage_def)
qed

lemma reachable_holeEngine: "reachable holeEngine"
proof -
  let ?st = "\<lparr> metaFile = Some [''users'' \<mapsto> usersSchema], idxFiles = Map.empty \<rparr>"
  let ?l1 = "snd (Insert ''users'' (replicate 4075 0) usersLayer)"
  let ?l2 = "snd (Insert ''users'' [1, 2, 3] ?l1)"
  from reachable.inserted[OF reachable_usersLayer, of "''users''" "replicate 4075 0"]
  have "reachable \<lparr> layer = ?l1, stored = ?st \<rparr>" by simp
  from reachable.inserted[OF this, of "''users''" "[1, 2, 3]"]
  have r2: "reachable \<lparr> layer = ?l2, stored = ?st \<rparr>" by simp
  have "isOpen ?l2" by (simp add: Insert_after_oversized)
  with reachable.page_flushed[OF r2, of "''users''" 1]
  show ?thesis by (simp add: holeEngine_def holeLayer_def)
qed

lemma ReadPage_holeLayer:
  "fst (ReadPage ''users'' 0 (diskManager holeLayer)) = Inr (replicate 4096 0)"
  by (simp add: holeLayer_eq ReadPage_def getFile_def Let_def PageSize_def length_GetData)

text \<open>The layer opened on a table file that the engine did not write.\<close>

lemma LoadPage_foreignPage: "LoadPage pid foreignPage = Some (fpage pid)"
proof -
  have n: "foreignPage ! n = (if n = 8 then 20 else 0)" if "n < 4096" for n
    using that by (auto simp add: foreignPage_def nth_append nth_Cons')
  have "(\<lambda>i. if 0 \<le> i \<and> i < PageSize then foreignPage ! nat i else 0) =
        (\<lambda>i. if i = 8 then 20 else 0)"
  proof
    fix i :: int
    show "(if 0 \<le> i \<and> i < PageSize then foreignPage ! nat i else 0) = (if i = 8 then 20 else 0)"
      using n[of "nat i"] by (auto simp add: page_consts)
  qed
  moreover have "length foreignPage = 4096" by (simp add: foreignPage_def)
  ultimately show ?thesis by (simp add: LoadPage_def fpage_def page_consts)
qed

lemma readHeader_fpage:
  "readHeader (fpage pid) =
     \<lparr> PageID = 0, SlotCount = 0, FreeStart = 0, FreeEnd = 20, NextPageID = 0, PrevPageID = 0 \<rparr>"
  by (simp add: readHeader_def fpage_def Uint16_def Uint32_def)

lemma InsertRecord_fpage:
  "\<exists>p'. InsertRecord [1, 2] (fpage pid) = (Inr 0, p') \<and> GetRecord 0 p' = Inr [18, 0]"
proof -
  have so: "slotOffset 0 = 18" by (simp add: slotOffset_range page_consts)
  define p' where "p' = writeHeader
     \<lparr> PageID = 0, SlotCount = 1, FreeStart = 4, FreeEnd = 18, NextPageID = 0, PrevPageID = 0 \<rparr>
     ((fpage pid)\<lparr> Data := PutUint16 (PutUint16 (copy_bytes (Data (fpage pid)) 18 2 [1, 2]) 18 18) 20 2,
                   dirty := True \<rparr>)"
  have ins: "InsertRecord [1, 2] (fpage pid) = (Inr 0, p')"
    by (simp add: InsertRecord_def Let_def readHeader_fpage findSlot.simps so writeSlot_def
        page_consts p'_def)
  have sl: "slotAt (Data p') 18 = \<lparr> Offset = 18, Size = 2 \<rparr>"
    unfolding p'_def using slotAt_written[of _ 18 18 2]
    by (simp add: slotAt_writeHeader)
  have d: "Data p' 18 = 18" "Data p' 19 = 0"
    by (simp_all add: p'_def Data_writeHeader_other PutUint16_def)
  have "GetRecord 0 p' = Inr [18, 0]"
    by (simp add: GetRecord_def Let_def readSlot_def so sl slice_def d page_consts)
      (simp add: p'_def readHeader_writeHeader)
  with ins show ?thesis by blast
qed

lemma length_foreignPage: "length foreignPage = 4096"
  by (simp add: foreignPage_def)

lemma Open_foreign:
  "snd (Open \<lparr> metaFile = Some [''users'' \<mapsto> usersSchema], idxFiles = Map.empty \<rparr>
          (NewFileStorageLayer [''users'' \<mapsto> foreignPage])) =
     \<lparr> diskManager = \<lparr> files = {}, pageCounter = Map.empty,
                        fileData = [''users'' \<mapsto> foreignPage] \<rparr>,
       catalog = [''users'' \<mapsto> usersSchema],
       pageCache = [''users'' \<mapsto> Map.empty], indexes = [''users'' \<mapsto> NewSimpleIndex],
       isOpen = True \<rparr>"
  by (auto simp add: Open_def NewFileStorageLayer_def Let_def NewDiskManager_def
      SimpleIndex_Load_def fun_eq_iff)

lemma foreignLayer_eq:
  "foreignLayer =
     \<lparr> diskManager = \<lparr> files = {''users''}, pageCounter = [''users'' \<mapsto> 2],
                        fileData = [''users'' \<mapsto> foreignPage] \<rparr>,
       catalog = [''users'' \<mapsto> usersSchema],
       pageCache = [''users'' \<mapsto> [1 \<mapsto> snd (InsertRecord [9] (NewPage 1))]],
       indexes = [''users'' \<mapsto>
                    \<lparr> index = [1 \<mapsto> \<lparr> ridPageID = 1, ridSlotID = 0 \<rparr>], nextID = 2 \<rparr>],
       isOpen = True \<rparr>"
proof -
  define l0 :: FileStorageLayer where
    "l0 = \<lparr> diskManager = \<lparr> files = {}, pageCounter = Map.empty,
                        fileData = [''users'' \<mapsto> foreignPage] \<rparr>,
       catalog = [''users'' \<mapsto> usersSchema],
       pageCache = [''users'' \<mapsto> Map.empty], indexes = [''users'' \<mapsto> NewSimpleIndex],
       isOpen = True \<rparr>"
  from InsertRecord_NewPage[of "[9]" 1] obtain q' where
    ins: "InsertRecord [9] (NewPage 1) = (Inr 0, q')" by auto
  have g: "go_int 2 = 2" by (rule go_int_id) simp_all
  have pc: "sint (GetPageCount ''users'' (diskManager l0)) = 0"
    by (simp add: GetPageCount_def l0_def)
  have lp: "insertLoop ''users'' [9] 0 0 l0 = (Inr None, l0)"
    by (simp add: insertLoop.simps)
  have ap: "AllocatePage ''users'' (diskManager l0) =
      (1, \<lparr> files = {''users''}, pageCounter = [''users'' \<mapsto> 2],
             fileData = [''users'' \<mapsto> foreignPage] \<rparr>)"
    by (simp add: AllocatePage_def getFile_def l0_def Let_def PageSize_def length_foreignPage)
  have ir: "insertRecord ''users'' [9] l0 =
      (Inr (1, 0), cachePage ''users'' 1 q'
         (l0\<lparr> diskManager := \<lparr> files = {''users''}, pageCounter = [''users'' \<mapsto> 2],
                                 fileData = [''users'' \<mapsto> foreignPage] \<rparr> \<rparr>))"
    by (simp add: insertRecord_def pc Let_def lp ap ins)
  have "Insert ''users'' [9] l0 =
     (Inr 1,
      \<lparr> diskManager = \<lparr> files = {''users''}, pageCounter = [''users'' \<mapsto> 2],
                        fileData = [''users'' \<mapsto> foreignPage] \<rparr>,
       catalog = [''users'' \<mapsto> usersSchema],
       pageCache = [''users'' \<mapsto> [1 \<mapsto> q']],
       indexes = [''users'' \<mapsto>
                    \<lparr> index = [1 \<mapsto> \<lparr> ridPageID = 1, ridSlotID = 0 \<rparr>], nextID = 2 \<rparr>],
       isOpen = True \<rparr>)"
    by (simp add: Insert_def ir)
      (simp add: l0_def TableExists_def cachePage_def SimpleIndex_Insert_def NewSimpleIndex_def g)
  then show ?thesis
    unfolding foreignLayer_def Open_foreign l0_def[symmetric] by (simp add: ins)
qed

lemma Insert_foreignLayer:
  "fst (Insert ''users'' [1, 2] foreignLayer) = Inr 2 \<and>
   fst (Get ''users'' 2 (snd (Insert ''users'' [1, 2] foreignLayer))) = Inr [18, 0]"
proof -
  from InsertRecord_fpage[of 0] obtain p' where
    ins: "InsertRecord [1, 2] (fpage 0) = (Inr 0, p')" and get: "GetRecord 0 p' = Inr [18, 0]"
    by auto
  define q' where "q' = snd (InsertRecord [9] (NewPage 1))"
  define dm :: DiskManager where
    "dm = \<lparr> files = {''users''}, pageCounter = [''users'' \<mapsto> 2],
            fileData = [''users'' \<mapsto> foreignPage] \<rparr>"
  define l1 :: FileStorageLayer where
    "l1 = \<lparr> diskManager = dm, catalog = [''users'' \<mapsto> usersSchema],
            pageCache = [''users'' \<mapsto> [1 \<mapsto> q']],
            indexes = [''users'' \<mapsto>
                    \<lparr> index = [1 \<mapsto> \<lparr> ridPageID = 1, ridSlotID = 0 \<rparr>], nextID = 2 \<rparr>],
            isOpen = True \<rparr>"
  have l1: "foreignLayer = l1" by (simp add: foreignLayer_eq l1_def dm_def q'_def)
  have g: "go_int 3 = 3" by (rule go_int_id) simp_all
  have rp: "ReadPage ''users'' 0 dm = (Inr foreignPage, dm)"
    by (simp add: ReadPage_def getFile_def dm_def Let_def PageSize_def length_foreignPage)
  have gp: "getPage ''users'' 0 l1 = (Inr (fpage 0), cachePage ''users'' 0 (fpage 0) l1)"
  proof -
    have c: "cachedPage l1 ''users'' 0 = None" by (simp add: l1_def cachedPage_def)
    have d: "diskManager l1 = dm" "l1\<lparr> diskManager := dm \<rparr> = l1" by (simp_all add: l1_def)
    show ?thesis by (simp add: getPage_def c d rp LoadPage_foreignPage)
  qed
  have lp: "insertLoop ''users'' [1, 2] 0 2 l1 =
      (Inr (Some (0, 0)), cachePage ''users'' 0 p' (cachePage ''users'' 0 (fpage 0) l1))"
    by (simp add: insertLoop.simps[of _ _ 0] gp ins)
  have pc: "sint (GetPageCount ''users'' (diskManager l1)) = 2"
    by (simp add: GetPageCount_def l1_def dm_def)
  have ir: "insertRecord ''users'' [1, 2] l1 =
      (Inr (0, 0), cachePage ''users'' 0 p' (cachePage ''users'' 0 (fpage 0) l1))"
    by (simp add: insertRecord_def pc Let_def lp)
  have i: "Insert ''users'' [1, 2] l1 =
     (Inr 2,
      \<lparr> diskManager = dm, catalog = [''users'' \<mapsto> usersSchema],
        pageCache = [''users'' \<mapsto> [1 \<mapsto> q', 0 \<mapsto> p']],
        indexes = [''users'' \<mapsto>
                    \<lparr> index = [1 \<mapsto> \<lparr> ridPageID = 1, ridSlotID = 0 \<rparr>,
                                2 \<mapsto> \<lparr> ridPageID = 0, ridSlotID = 0 \<rparr>], nextID = 3 \<rparr>],
        isOpen = True \<rparr>)"
    by (simp add: Insert_def ir)
      (simp add: l1_def TableExists_def cachePage_def SimpleIndex_Insert_def g)
  show ?thesis
    unfolding l1
    by (simp add: i Get_def SimpleIndex_Search_def getPage_def cachedPage_def get)
qed

text \<open>
  Claim C3, for a record that is not empty. In every state that the engine reaches from an
  empty directory, when \<open>Insert\<close> of a non-empty record \<open>b\<close> returns the ID \<open>lid\<close>:
  \<open>Search lid\<close> in the table's index yields the (page, slot) pair where \<open>insertRecord\<close>
  placed the record, \<open>GetRecord\<close> at that location of the cached page returns exactly
  \<open>b\<close>, and a following \<open>Get\<close> of \<open>lid\<close> returns \<open>b\<close> and leaves the layer as it is.
\<close>

theorem Insert_then_Get:
  assumes re: "reachable w" and ne: "b \<noteq> []" and ins: "Insert t b (layer w) = (Inr lid, fsl')"
  shows "\<exists>si rid pg.
           indexes fsl' t = Some si \<and> SimpleIndex_Search lid si = Some rid \<and>
           fst (insertRecord t b (layer w)) = Inr (ridPageID rid, ridSlotID rid) \<and>
           cachedPage fsl' t (ridPageID rid) = Some pg \<and>
           GetRecord (ridSlotID rid) pg = Inr b \<and>
           Get t lid fsl' = (Inr b, fsl')"
proof -
  from reachable_engine_inv[OF re] have "layer_inv (layer w)" by (simp add: engine_inv_def)
  then show ?thesis using ne ins by (rule Insert_then_Get_layer)
qed

text \<open>
  The theorem in the state with a hole in the table file: page 0 reads as 4096 zero
  bytes, the first-fit loop passes over it, and the record of the next insert is found
  again under its ID.
\<close>

theorem Insert_then_Get_witness:
  "reachable holeEngine \<and>
   fst (ReadPage ''users'' 0 (diskManager (layer holeEngine))) = Inr (replicate 4096 0) \<and>
   fst (Insert ''users'' [7, 8] (layer holeEngine)) = Inr 2 \<and>
   fst (Get ''users'' 2 (snd (Insert ''users'' [7, 8] (layer holeEngine)))) = Inr [7, 8]"
proof -
  have l: "layer holeEngine = holeLayer" by (simp add: holeEngine_def)
  from reachable_engine_inv[OF reachable_holeEngine] have inv: "layer_inv holeLayer"
    by (simp add: engine_inv_def l)
  have "fst (Insert ''users'' [7, 8] holeLayer) =
      Inr (nextID \<lparr> index = [1 \<mapsto> \<lparr> ridPageID = 1, ridSlotID = 0 \<rparr>], nextID = 2 \<rparr>)"
    by (rule Insert_succeeds[OF inv]) (simp_all add: holeLayer_eq TableExists_def)
  then obtain fsl' where i: "Insert ''users'' [7, 8] (layer holeEngine) = (Inr 2, fsl')"
    by (cases "Insert ''users'' [7, 8] holeLayer") (simp add: l)
  from Insert_then_Get[OF reachable_holeEngine _ i]
  have "Get ''users'' 2 fsl' = (Inr [7, 8], fsl')" by auto
  with i reachable_holeEngine ReadPage_holeLayer show ?thesis by (simp add: l)
qed

text \<open>
  Claim C3 as the specification states it, for every open layer and every record, fails
  at two inputs. In the state after \<open>Open\<close> on an empty directory and \<open>CreateTable\<close>, the
  empty record is inserted under ID 1 and \<open>Get\<close> of 1 fails: a slot of size 0 is the
  tombstone, so the record is stored in a slot that \<open>GetRecord\<close> reports as empty. And on
  the layer opened over a table file that the engine did not write, whose header has
  \<open>FreeEnd = 20\<close>, the record \<open>[1, 2]\<close> is inserted under ID 2 at bytes 18 and 19 of page 0,
  where the slot entry of slot 0 is written over it: \<open>Get\<close> of 2 returns \<open>[18, 0]\<close>.
\<close>

theorem Insert_then_Get_counterexample:
  "reachable \<lparr> layer = usersLayer,
               stored = \<lparr> metaFile = Some [''users'' \<mapsto> usersSchema], idxFiles = Map.empty \<rparr> \<rparr> \<and>
   fst (Insert ''users'' [] usersLayer) = Inr 1 \<and>
   fst (Get ''users'' 1 (snd (Insert ''users'' [] usersLayer))) = Inl EmptySlot \<and>
   fst (Insert ''users'' [1, 2] foreignLayer) = Inr 2 \<and>
   fst (Get ''users'' 2 (snd (Insert ''users'' [1, 2] foreignLayer))) = Inr [18, 0]"
proof -
  from InsertRecord_NewPage[of "[]" 0] obtain p' where
    ins: "InsertRecord [] (NewPage 0) = (Inr 0, p')" by auto
  have "header_ok (NewPage 0)" using page_inv_NewPage[of 0] by (simp add: page_inv_def)
  from GetRecord_after_empty_InsertRecord[OF this ins]
  have "GetRecord 0 p' = Inl EmptySlot" .
  then show ?thesis
    using reachable_usersLayer Insert_foreignLayer
    by (simp add: Insert_usersLayer ins Get_def SimpleIndex_Search_def getPage_def cachedPage_def)
qed

section \<open>DeleteRecord, then Get\<close>

text \<open>
  Claim C9. After a successful \<open>DeleteRecord\<close> of the ID \<open>lid\<close> in a table, the table's
  index has no mapping for \<open>lid\<close> and a following \<open>Get\<close> of \<open>lid\<close> fails with
  \<open>NotFound\<close>.
\<close>

theorem Delete_then_Get_NotFound:
  assumes del: "FSL_DeleteRecord t lid fsl = (Inr u, fsl')"
  shows "(\<exists>si. indexes fsl' t = Some si \<and> SimpleIndex_Search lid si = None) \<and>
         Get t lid fsl' = (Inl NotFound, fsl')"
proof -
  from del have op: "isOpen fsl"
    by (auto simp add: FSL_DeleteRecord_def split: if_splits)
  from del op obtain si rid gr fsl1 where
    "indexes fsl t = Some si" "SimpleIndex_Search lid si = Some rid"
    and gp: "getPage t (ridPageID rid) fsl = (gr, fsl1)"
    by (cases "getPage t (ridPageID (the (SimpleIndex_Search lid (the (indexes fsl t))))) fsl")
      (auto simp add: FSL_DeleteRecord_def split: option.splits)
  note g = getPage_frame[OF gp]
  from del op \<open>indexes fsl t = Some si\<close> \<open>SimpleIndex_Search lid si = Some rid\<close> gp g
  obtain page' where
    f: "fsl' = (cachePage t (ridPageID rid) page' fsl1)
                 \<lparr> indexes := (indexes fsl1)(t \<mapsto> si\<lparr> index := (index si)(lid := None) \<rparr>) \<rparr>"
    by (auto simp add: FSL_DeleteRecord_def SimpleIndex_Delete_def
        split: option.splits sum.splits prod.splits if_splits)
  have i': "indexes fsl' t = Some (si\<lparr> index := (index si)(lid := None) \<rparr>)" by (simp add: f)
  have s: "SimpleIndex_Search lid (si\<lparr> index := (index si)(lid := None) \<rparr>) = None"
    by (simp add: SimpleIndex_Search_def)
  have op': "isOpen fsl'" using op g by (simp add: f cachePage_fields)
  have "Get t lid fsl' = (Inl NotFound, fsl')" using op' i' s by (simp add: Get_def)
  with i' s show ?thesis by simp
qed

text \<open>The theorem on the demo's table: insert a record, delete it, get it.\<close>

theorem Delete_then_Get_NotFound_witness:
  "fst (FSL_DeleteRecord ''users'' 1 (snd (Insert ''users'' [1, 2, 3] usersLayer))) = Inr () \<and>
   fst (Get ''users'' 1
          (snd (FSL_DeleteRecord ''users'' 1 (snd (Insert ''users'' [1, 2, 3] usersLayer)))))
     = Inl NotFound"
proof -
  from InsertRecord_NewPage[of "[1, 2, 3]" 0] obtain p' where
    ins: "InsertRecord [1, 2, 3] (NewPage 0) = (Inr 0, p')" and inv: "page_inv p'"
    and n: "slotCount p' = 1" and ne: "\<not> slotEmpty p' 0" by auto
  from inv have "header_ok p'" by (simp add: page_inv_def)
  from DeleteRecord_valid[OF this, of 0] n ne obtain p'' where
    d: "DeleteRecord 0 p' = (Inr (), p'')" by auto
  obtain fsl' where
    del: "FSL_DeleteRecord ''users'' 1 (snd (Insert ''users'' [1, 2, 3] usersLayer)) = (Inr (), fsl')"
    by (simp add: Insert_usersLayer ins FSL_DeleteRecord_def SimpleIndex_Search_def getPage_def
        cachedPage_def d cachePage_def SimpleIndex_Delete_def)
  from Delete_then_Get_NotFound[OF del] have "Get ''users'' 1 fsl' = (Inl NotFound, fsl')" by simp
  with del show ?thesis by simp
qed

section \<open>Logical record IDs\<close>

text \<open>What the operations of the layer do to the index of a table: \<open>Insert\<close> that succeeds
  is \<open>SimpleIndex.Insert\<close>, \<open>DeleteRecord\<close> that succeeds is \<open>SimpleIndex.Delete\<close>, \<open>Open\<close> is
  \<open>Load\<close> on a new index, and everything else leaves the index as it is.\<close>

lemma insertLoop_indexes: "indexes (snd (insertLoop t b i n fsl)) = indexes fsl"
proof (induction t b i n fsl rule: insertLoop.induct)
  case (1 t b i n fsl)
  show ?case
  proof (cases "i < n")
    case False
    then show ?thesis by (simp add: insertLoop.simps[of t b i n fsl])
  next
    case True
    obtain gr fsl1 where gp: "getPage t (word_of_int i) fsl = (gr, fsl1)"
      by (cases "getPage t (word_of_int i) fsl")
    from getPage_frame[OF gp] have g: "indexes fsl1 = indexes fsl" by simp
    show ?thesis
    proof (cases gr)
      case (Inl e)
      with "1.IH"(1)[OF True gp[symmetric] Inl] True gp g show ?thesis
        by (simp add: insertLoop.simps[of t b i n fsl])
    next
      case (Inr page)
      obtain ir page' where ins: "InsertRecord b page = (ir, page')"
        by (cases "InsertRecord b page")
      show ?thesis
      proof (cases ir)
        case (Inr sid)
        with True gp \<open>gr = Inr page\<close> ins g show ?thesis
          by (simp add: insertLoop.simps[of t b i n fsl] cachePage_fields)
      next
        case (Inl e)
        show ?thesis
        proof (cases "e = Panic")
          case True
          with \<open>i < n\<close> gp \<open>gr = Inr page\<close> ins Inl g show ?thesis
            by (simp add: insertLoop.simps[of t b i n fsl] cachePage_fields)
        next
          case False
          with "1.IH"(2)[OF \<open>i < n\<close> gp[symmetric] \<open>gr = Inr page\<close> ins[symmetric] Inl False]
            \<open>i < n\<close> gp \<open>gr = Inr page\<close> ins Inl g
          show ?thesis
            by (simp add: insertLoop.simps[of t b i n fsl] cachePage_fields)
        qed
      qed
    qed
  qed
qed

lemma insertRecord_indexes: "indexes (snd (insertRecord t b fsl)) = indexes fsl"
  using insertLoop_indexes[of t b 0 "sint (GetPageCount t (diskManager fsl))" fsl]
  by (auto simp add: insertRecord_def Let_def cachePage_fields
      split: prod.splits sum.splits option.splits)

lemma Insert_index:
  assumes "Insert t b fsl = (res, fsl')"
  shows "(\<forall>e. res = Inl e \<longrightarrow> indexes fsl' = indexes fsl) \<and>
         (\<forall>lid. res = Inr lid \<longrightarrow>
            (\<exists>si rid. indexes fsl t = Some si \<and>
               indexes fsl' = (indexes fsl)(t \<mapsto> snd (SimpleIndex_Insert rid si)) \<and>
               lid = fst (SimpleIndex_Insert rid si)))"
proof (intro conjI allI impI)
  fix e assume "res = Inl e"
  with assms insertRecord_indexes[of t b fsl] show "indexes fsl' = indexes fsl"
    by (auto simp add: Insert_def split: if_splits prod.splits sum.splits option.splits)
next
  fix lid assume "res = Inr lid"
  with assms obtain pid sid fsl1 si where
    ir: "insertRecord t b fsl = (Inr (pid, sid), fsl1)" and si: "indexes fsl1 t = Some si"
    and lid: "lid = nextID si"
    and f: "fsl' = fsl1\<lparr> indexes := (indexes fsl1)(t \<mapsto>
              snd (SimpleIndex_Insert \<lparr> ridPageID = pid, ridSlotID = sid \<rparr> si)) \<rparr>"
    by (auto elim: Insert_Inr)
  from insertRecord_indexes[of t b fsl] ir have i: "indexes fsl1 = indexes fsl" by simp
  show "\<exists>si rid. indexes fsl t = Some si \<and>
               indexes fsl' = (indexes fsl)(t \<mapsto> snd (SimpleIndex_Insert rid si)) \<and>
               lid = fst (SimpleIndex_Insert rid si)"
    using si lid f i
    by (intro exI[of _ si] exI[of _ "\<lparr> ridPageID = pid, ridSlotID = sid \<rparr>"])
      (simp add: SimpleIndex_Insert_def)
qed

lemma Get_index: "indexes (snd (Get t lid fsl)) = indexes fsl"
  by (auto simp add: Get_def split: option.splits prod.splits sum.splits dest: getPage_frame)

lemma Update_index: "indexes (snd (Update t lid r fsl)) = indexes fsl"
  by (auto simp add: Update_def cachePage_fields split: option.splits prod.splits sum.splits
      dest: getPage_frame)

lemma DeleteRecord_index:
  assumes "FSL_DeleteRecord t lid fsl = (res, fsl')"
  shows "indexes fsl' = indexes fsl \<or>
         (\<exists>si. indexes fsl t = Some si \<and>
            indexes fsl' = (indexes fsl)(t \<mapsto> snd (SimpleIndex_Delete lid si)))"
  using assms
  by (auto simp add: FSL_DeleteRecord_def cachePage_fields
      split: if_splits option.splits prod.splits sum.splits dest: getPage_frame)

lemma CreateTable_index:
  "CreateTable t s fsl = (Inr (), fsl') \<Longrightarrow> indexes fsl' = (indexes fsl)(t \<mapsto> NewSimpleIndex)"
  by (auto simp add: CreateTable_def split: if_splits)

lemma Open_index:
  assumes "\<not> isOpen fsl" and "metaFile st = Some schemas" and "schemas t \<noteq> None"
  shows "indexes (snd (Open st fsl)) t = Some (SimpleIndex_Load (idxFiles st t) NewSimpleIndex)"
  using assms by (simp add: Open_def Let_def)

lemma flushPage_index: "indexes (flushPage t pid fsl) = indexes fsl"
  by (simp add: flushPage_def cachePage_fields split: option.splits prod.splits sum.splits)

lemma reachable_reopenedLayer:
  "reachable \<lparr> layer = reopenedLayer,
               stored = \<lparr> metaFile = Some [''users'' \<mapsto> usersSchema], idxFiles = Map.empty \<rparr> \<rparr>"
  using reachable.opened[OF reachable.restart[OF
          reachable.inserted[OF reachable_usersLayer, of "''users''" "[1, 2, 3]"]]]
  by (simp add: reopenedLayer_def)

lemma Insert_reopenedLayer: "fst (Insert ''users'' b reopenedLayer) = Inr 1" if "length b \<le> 4074"
proof -
  from reachable_engine_inv[OF reachable_reopenedLayer] have inv: "layer_inv reopenedLayer"
    by (simp add: engine_inv_def)
  have "fst (Insert ''users'' b reopenedLayer) = Inr (nextID NewSimpleIndex)"
    by (rule Insert_succeeds[OF inv _ _ _ that])
      (simp_all add: reopenedLayer_def Open_def Let_def NewFileStorageLayer_def TableExists_def
        SimpleIndex_Load_def)
  then show ?thesis by (simp add: NewSimpleIndex_def)
qed

lemma issuedIDs_from:
  "- (2 ^ 63) \<le> nextID si \<Longrightarrow> nextID si + int (length (filter isInsert xs)) < 2 ^ 63 \<Longrightarrow>
   insertsSaved unsaved xs \<Longrightarrow>
   (\<not> unsaved \<longrightarrow> nextID (SimpleIndex_Load idxFile NewSimpleIndex) = nextID si) \<Longrightarrow>
     issuedIDs xs (si, idxFile) = [nextID si .. nextID si + int (length (filter isInsert xs)) - 1]"
proof (induction xs arbitrary: si idxFile unsaved)
  case Nil
  then show ?case by simp
next
  case (Cons x xs)
  show ?case
  proof (cases x)
    case (IxInsert rid)
    let ?si = "snd (SimpleIndex_Insert rid si)"
    from Cons.prems IxInsert have n: "go_int (nextID si + 1) = nextID si + 1"
      by (intro go_int_id) simp_all
    then have nx: "nextID ?si = nextID si + 1" by (simp add: SimpleIndex_Insert_def)
    from Cons.prems IxInsert nx
    have "issuedIDs xs (?si, idxFile) = [nextID ?si .. nextID ?si + int (length (filter isInsert xs)) - 1]"
      by (intro Cons.IH[where unsaved = True]) simp_all
    with IxInsert nx show ?thesis
      by (simp add: SimpleIndex_Insert_def upto_rec1[of "nextID si"])
  next
    case (IxDelete lid)
    let ?si = "snd (SimpleIndex_Delete lid si)"
    have nx: "nextID ?si = nextID si" by (simp add: SimpleIndex_Delete_def)
    from Cons.prems IxDelete nx
    have "issuedIDs xs (?si, idxFile) = [nextID ?si .. nextID ?si + int (length (filter isInsert xs)) - 1]"
      by (intro Cons.IH[where unsaved = unsaved]) simp_all
    with IxDelete nx show ?thesis by simp
  next
    case (IxUpdate lid rid)
    let ?si = "snd (SimpleIndex_Update lid rid si)"
    have nx: "nextID ?si = nextID si" by (simp add: SimpleIndex_Update_def)
    from Cons.prems IxUpdate nx
    have "issuedIDs xs (?si, idxFile) = [nextID ?si .. nextID ?si + int (length (filter isInsert xs)) - 1]"
      by (intro Cons.IH[where unsaved = unsaved]) simp_all
    with IxUpdate nx show ?thesis by simp
  next
    case (IxSearch lid)
    from Cons.prems IxSearch
    have "issuedIDs xs (si, idxFile) = [nextID si .. nextID si + int (length (filter isInsert xs)) - 1]"
      by (intro Cons.IH[where unsaved = unsaved]) simp_all
    with IxSearch show ?thesis by simp
  next
    case IxSave
    from Cons.prems IxSave
    have "issuedIDs xs (si, SimpleIndex_Save si)
            = [nextID si .. nextID si + int (length (filter isInsert xs)) - 1]"
      by (intro Cons.IH[where unsaved = False])
        (simp_all add: SimpleIndex_Save_def SimpleIndex_Load_def)
    with IxSave show ?thesis by simp
  next
    case IxReopen
    let ?si = "SimpleIndex_Load idxFile NewSimpleIndex"
    from Cons.prems IxReopen have nx: "nextID ?si = nextID si" by simp
    from Cons.prems IxReopen nx
    have "issuedIDs xs (?si, idxFile) = [nextID ?si .. nextID ?si + int (length (filter isInsert xs)) - 1]"
      by (intro Cons.IH[where unsaved = False]) simp_all
    with IxReopen nx show ?thesis by simp
  qed
qed

text \<open>
  Claim C10, as the code has it. Over any history of \<open>Insert\<close>, \<open>Delete\<close>, \<open>Update\<close> and
  \<open>Search\<close> calls on the index of a table, of saves of the index (\<open>Flush\<close>, \<open>Close\<close>) and
  of reopenings (\<open>Open\<close> makes a new index and loads the index file), starting with the new
  index of \<open>CreateTable\<close> and no index file: when no reopening comes with an insert since
  the last save, the IDs returned by the inserts are \<open>1, 2, 3, \<dots>\<close> in this order, strictly
  increasing from 1 and never repeated, whatever was deleted in between. The history holds
  fewer than \<open>2^63 - 1\<close> inserts, the point where the 64-bit \<open>nextID\<close> would wrap.
\<close>

theorem issued_ids_strictly_increasing:
  assumes "insertsSaved False ops" and "int (length (filter isInsert ops)) < 2 ^ 63 - 1"
  shows "issuedIDs ops (NewSimpleIndex, None) = [1 .. int (length (filter isInsert ops))] \<and>
         sorted_wrt (<) (issuedIDs ops (NewSimpleIndex, None)) \<and>
         distinct (issuedIDs ops (NewSimpleIndex, None))"
proof -
  have "issuedIDs ops (NewSimpleIndex, None) =
          [nextID NewSimpleIndex .. nextID NewSimpleIndex + int (length (filter isInsert ops)) - 1]"
    by (rule issuedIDs_from[where unsaved = False])
      (use assms in \<open>simp_all add: NewSimpleIndex_def SimpleIndex_Load_def\<close>)
  then have "issuedIDs ops (NewSimpleIndex, None) = [1 .. int (length (filter isInsert ops))]"
    by (simp add: NewSimpleIndex_def)
  then show ?thesis by simp
qed

text \<open>The theorem on a history of two inserts and a delete, a save, a reopening and a
  third insert.\<close>

theorem issued_ids_strictly_increasing_witness:
  "insertsSaved False
     [IxInsert \<lparr> ridPageID = 0, ridSlotID = 0 \<rparr>, IxInsert \<lparr> ridPageID = 0, ridSlotID = 1 \<rparr>,
      IxDelete 2, IxSave, IxReopen, IxSearch 2, IxInsert \<lparr> ridPageID = 0, ridSlotID = 1 \<rparr>] \<and>
   issuedIDs
     [IxInsert \<lparr> ridPageID = 0, ridSlotID = 0 \<rparr>, IxInsert \<lparr> ridPageID = 0, ridSlotID = 1 \<rparr>,
      IxDelete 2, IxSave, IxReopen, IxSearch 2, IxInsert \<lparr> ridPageID = 0, ridSlotID = 1 \<rparr>]
     (NewSimpleIndex, None)
     = [1, 2, 3]"
  using issued_ids_strictly_increasing
    [of "[IxInsert \<lparr> ridPageID = 0, ridSlotID = 0 \<rparr>, IxInsert \<lparr> ridPageID = 0, ridSlotID = 1 \<rparr>,
          IxDelete 2, IxSave, IxReopen, IxSearch 2, IxInsert \<lparr> ridPageID = 0, ridSlotID = 1 \<rparr>]"]
  by (simp add: upto_rec1)

text \<open>
  Claim C10 as the specification states it, over the whole life of the table, fails when
  the layer is opened again with an insert that no \<open>Flush\<close> or \<open>Close\<close> has saved (the
  program ended, or \<open>Close\<close> failed before it saved the index): \<open>Open\<close> loads the older
  index file, or finds none and keeps \<open>nextID = 1\<close>, and the next insert returns an ID that
  was issued before. First on the index alone, then in the engine: the demo's first
  insert returns 1, and so does the first insert after the program has ended without a
  flush and the directory is opened again.
\<close>

theorem reopen_without_save_reissues_id:
  "issuedIDs [IxInsert \<lparr> ridPageID = 0, ridSlotID = 0 \<rparr>, IxReopen,
              IxInsert \<lparr> ridPageID = 0, ridSlotID = 0 \<rparr>] (NewSimpleIndex, None) = [1, 1] \<and>
   reachable \<lparr> layer = reopenedLayer,
               stored = \<lparr> metaFile = Some [''users'' \<mapsto> usersSchema], idxFiles = Map.empty \<rparr> \<rparr> \<and>
   fst (Insert ''users'' [1, 2, 3] usersLayer) = Inr 1 \<and>
   fst (Insert ''users'' [4, 5, 6] reopenedLayer) = Inr 1"
  using reachable_reopenedLayer
  by (simp add: SimpleIndex_Insert_def SimpleIndex_Load_def NewSimpleIndex_def
      Insert_usersLayer Insert_reopenedLayer)

section \<open>Round trip of the row codec\<close>

text \<open>
  Where the codec does round-trip: schemas with at least one column (\<open>Deserialize\<close>
  rejects the empty buffer that a schema without columns serializes to) and values
  accepted by \<open>value_ok\<close>.
\<close>

lemma Uint64_Put: "Uint64 (PutUint64_bytes w @ rest) = w"
  unfolding Uint64_def PutUint64_bytes_def
proof (rule bit_word_eqI)
  fix n assume "n < LENGTH(64)"
  then have n: "n < 64" by simp
  consider "n < 8" | "8 \<le> n" "n < 16" | "16 \<le> n" "n < 24" | "24 \<le> n" "n < 32"
    | "32 \<le> n" "n < 40" | "40 \<le> n" "n < 48" | "48 \<le> n" "n < 56" | "56 \<le> n" "n < 64"
    using n by linarith
  then show "bit (ucast (([ucast w, ucast (drop_bit 8 w), ucast (drop_bit 16 w), ucast (drop_bit 24 w),
      ucast (drop_bit 32 w), ucast (drop_bit 40 w), ucast (drop_bit 48 w), ucast (drop_bit 56 w)] @ rest) ! 0 :: byte)
     OR push_bit 8 (ucast (([ucast w, ucast (drop_bit 8 w), ucast (drop_bit 16 w), ucast (drop_bit 24 w),
      ucast (drop_bit 32 w), ucast (drop_bit 40 w), ucast (drop_bit 48 w), ucast (drop_bit 56 w)] @ rest) ! 1 :: byte))
     OR push_bit 16 (ucast (([ucast w, ucast (drop_bit 8 w), ucast (drop_bit 16 w), ucast (drop_bit 24 w),
      ucast (drop_bit 32 w), ucast (drop_bit 40 w), ucast (drop_bit 48 w), ucast (drop_bit 56 w)] @ rest) ! 2 :: byte))
     OR push_bit 24 (ucast (([ucast w, ucast (drop_bit 8 w), ucast (drop_bit 16 w), ucast (drop_bit 24 w),
      ucast (drop_bit 32 w), ucast (drop_bit 40 w), ucast (drop_bit 48 w), ucast (drop_bit 56 w)] @ rest) ! 3 :: byte))
     OR push_bit 32 (ucast (([ucast w, ucast (drop_bit 8 w), ucast (drop_bit 16 w), ucast (drop_bit 24 w),
      ucast (drop_bit 32 w), ucast (drop_bit 40 w), ucast (drop_bit 48 w), ucast (drop_bit 56 w)] @ rest) ! 4 :: byte))
     OR push_bit 40 (ucast (([ucast w, ucast (drop_bit 8 w), ucast (drop_bit 16 w), ucast (drop_bit 24 w),
      ucast (drop_bit 32 w), ucast (drop_bit 40 w), ucast (drop_bit 48 w), ucast (drop_bit 56 w)] @ rest) ! 5 :: byte))
     OR push_bit 48 (ucast (([ucast w, ucast (drop_bit 8 w), ucast (drop_bit 16 w), ucast (drop_bit 24 w),
      ucast (drop_bit 32 w), ucast (drop_bit 40 w), ucast (drop_bit 48 w), ucast (drop_bit 56 w)] @ rest) ! 6 :: byte))
     OR push_bit 56 (ucast (([ucast w, ucast (drop_bit 8 w), ucast (drop_bit 16 w), ucast (drop_bit 24 w),
      ucast (drop_bit 32 w), ucast (drop_bit 40 w), ucast (drop_bit 48 w), ucast (drop_bit 56 w)] @ rest) ! 7 :: byte)) :: 64 word) n
     = bit w n"
    by cases (auto simp add: bit_simps)
qed

lemma ucast_32_64_id: "unat (w :: 64 word) < 2 ^ 32 \<Longrightarrow> (ucast (ucast w :: 32 word) :: 64 word) = w"
  by (rule word_unat_eq_iff[THEN iffD2])
    (simp add: unsigned_ucast_eq unsigned_take_bit_eq take_bit_nat_eq_self)

lemma unat16_of_length: "n < 65536 \<Longrightarrow> unat (word_of_int (int n) :: 16 word) = n"
  by (simp add: unat_of_nat)

lemma unat16_two_plus: "n < 65534 \<Longrightarrow> unat (2 + word_of_int (int n) :: 16 word) = 2 + n"
  by (simp add: unat_word_ariths unat_of_nat)

lemma deserialize_string:
  assumes "Type col = TypeString" and "unat l = length s" and "unat (2 + l) = 2 + length s"
  shows "deserializeField col (PutUint16_bytes l @ s @ rest) = Inr (VString s, 2 + length s)"
  using assms by (simp add: deserializeField_def PutUint16_bytes_def Uint16_Put Let_def)

text \<open>One field: what \<open>serializeField\<close> writes, \<open>deserializeField\<close> reads back, whatever
  follows it in the buffer.\<close>

lemma field_round_trip:
  assumes ok: "value_ok col v" and nn: "v \<noteq> VNil"
  shows "\<exists>fd. serializeField col v = Inr fd \<and>
              deserializeField col (fd @ rest) = Inr (v, length fd)"
proof (cases v)
  case VNil
  with nn show ?thesis by simp
next
  case (VInt w)
  with ok have t: "Type col = TypeInt" and w: "unat w < 2 ^ 32" by (simp_all add: value_ok_def)
  show ?thesis
    using VInt t ucast_32_64_id[OF w]
    by (simp add: serializeField_def deserializeField_def PutUint32_bytes_def Uint32_Put)
next
  case (VFloat bits)
  with ok have t: "Type col = TypeFloat" by (simp add: value_ok_def)
  have l: "length (PutUint64_bytes bits) = 8" by (simp add: PutUint64_bytes_def)
  have "Uint64 (take 8 (PutUint64_bytes bits @ rest)) = bits"
    using Uint64_Put[of bits "[]"] l by simp
  with VFloat t l show ?thesis
    by (simp add: serializeField_def deserializeField_def)
next
  case (VString s)
  with ok have t: "Type col = TypeString" and fit: "int (length s) \<le> Length col"
    and len: "length s < 65534" by (simp_all add: value_ok_def)
  let ?l = "word_of_int (int (length s)) :: 16 word"
  have u: "unat ?l = length s" by (rule unat16_of_length) (use len in simp)
  have u2: "unat (2 + ?l) = 2 + length s" by (rule unat16_two_plus) (use len in simp)
  have s: "serializeField col v = Inr (PutUint16_bytes ?l @ s)"
    using VString t fit by (simp add: serializeField_def)
  have "deserializeField col ((PutUint16_bytes ?l @ s) @ rest) = Inr (v, length (PutUint16_bytes ?l @ s))"
    using deserialize_string[OF t u u2, of rest] VString by (simp add: PutUint16_bytes_def)
  with s show ?thesis by blast
next
  case VOther
  with ok show ?thesis by (simp add: value_ok_def)
qed

lemma length_nullBits: "length (nullBits vs i bm) = length bm"
  by (induction vs arbitrary: i bm) simp_all

lemma serializeLoop_eq:
  "list_all2 value_ok cols vs' \<Longrightarrow> vs' = drop i vs \<Longrightarrow> (i + length cols + 7) div 8 \<le> length bm \<Longrightarrow>
     serializeLoop cols vs i (bm @ pl) = Inr (nullBits vs' i bm @ pl @ payload cols vs')"
proof (induction cols arbitrary: vs' i bm pl)
  case Nil
  then show ?case by simp
next
  case (Cons col cols)
  from Cons.prems(1) obtain v vs'' where vs': "vs' = v # vs''" and okv: "value_ok col v"
    and rest: "list_all2 value_ok cols vs''"
    by (cases vs') auto
  from Cons.prems(2) vs' have vi: "vs ! i = v" and dr: "vs'' = drop (i + 1) vs"
    by (metis nth_via_drop, metis Cons.prems(2) vs' drop_Suc drop_tl list.sel(3) tl_drop Suc_eq_plus1)
  from Cons.prems(3) have nb: "(i + 1 + length cols + 7) div 8 \<le> length bm" by simp
  have "i div 8 < (i + 1 + length cols + 7) div 8" by presburger
  with nb have ib: "i div 8 < length bm" by simp
  show ?case
  proof (cases "v = VNil")
    case True
    with okv have nl: "Nullable col" by (simp add: value_ok_def)
    let ?bm = "bm[i div 8 := (bm ! (i div 8)) OR push_bit (i mod 8) 1]"
    have "serializeLoop cols vs (i + 1) (?bm @ pl) = Inr (nullBits vs'' (i + 1) ?bm @ pl @ payload cols vs'')"
      by (rule Cons.IH[OF rest dr]) (use nb in simp)
    with True nl vi ib vs' show ?thesis
      by (simp add: Let_def list_update_append1 nth_append)
  next
    case False
    from field_round_trip[OF okv False, of "[]"] obtain fd where fd: "serializeField col v = Inr fd"
      by blast
    have "serializeLoop cols vs (i + 1) (bm @ (pl @ fd)) = Inr (nullBits vs'' (i + 1) bm @ (pl @ fd) @ payload cols vs'')"
      by (rule Cons.IH[OF rest dr]) (use nb in simp)
    with False vi fd vs' show ?thesis by (simp add: Let_def)
  qed
qed

lemma bit_exp_byte: "m < 8 \<Longrightarrow> bit (2 ^ m :: byte) j \<longleftrightarrow> j = m"
  by (auto simp add: bit_exp_iff possible_bit_word)

lemma bit_nullBits:
  "k div 8 < length bm \<Longrightarrow>
     bit (nullBits vs i bm ! (k div 8)) (k mod 8) \<longleftrightarrow>
       (i \<le> k \<and> k < i + length vs \<and> vs ! (k - i) = VNil) \<or> bit (bm ! (k div 8)) (k mod 8)"
proof (induction vs arbitrary: i bm)
  case Nil
  then show ?case by auto
next
  case (Cons v vs)
  let ?bm = "if v = VNil then bm[i div 8 := (bm ! (i div 8)) OR push_bit (i mod 8) 1] else bm"
  have l: "k div 8 < length ?bm" using Cons.prems by simp
  have step: "bit (?bm ! (k div 8)) (k mod 8) \<longleftrightarrow> (k = i \<and> v = VNil) \<or> bit (bm ! (k div 8)) (k mod 8)"
  proof (cases "v = VNil")
    case False
    then show ?thesis by simp
  next
    case True
    show ?thesis
    proof (cases "k div 8 = i div 8")
      case False
      then have "k \<noteq> i" by auto
      with True False show ?thesis by simp
    next
      case same: True
      have "k mod 8 = i mod 8 \<longleftrightarrow> k = i"
        using same by (metis div_mult_mod_eq)
      with True same Cons.prems show ?thesis
        by (simp add: bit_or_iff bit_exp_byte) blast
    qed
  qed
  have "bit (nullBits (v # vs) i bm ! (k div 8)) (k mod 8) \<longleftrightarrow>
          (i + 1 \<le> k \<and> k < i + 1 + length vs \<and> vs ! (k - (i + 1)) = VNil) \<or> bit (?bm ! (k div 8)) (k mod 8)"
    using Cons.IH[OF l, of "i + 1"] by simp
  also have "\<dots> \<longleftrightarrow> (i \<le> k \<and> k < i + length (v # vs) \<and> (v # vs) ! (k - i) = VNil) \<or> bit (bm ! (k div 8)) (k mod 8)"
  proof (cases "k = i")
    case True
    then show ?thesis using step by auto
  next
    case False
    then have "(v # vs) ! (k - i) = vs ! (k - (i + 1))" if "i \<le> k"
    proof -
      from that False have "k - i = Suc (k - (i + 1))" by simp
      then show ?thesis by simp
    qed
    with False step show ?thesis by auto
  qed
  finally show ?case .
qed

lemma payload_Cons_field:
  "v \<noteq> VNil \<Longrightarrow> serializeField col v = Inr fd \<Longrightarrow>
     payload (col # cols) (v # vs) = fd @ payload cols vs"
  by simp

lemma deserializeLoop_eq:
  "list_all2 value_ok cols vs' \<Longrightarrow>
   (\<forall>k < length cols. bit (data ! ((i + k) div 8)) ((i + k) mod 8) \<longleftrightarrow> vs' ! k = VNil) \<Longrightarrow>
   drop off data = payload cols vs' \<Longrightarrow> length acc = i + length cols \<Longrightarrow>
     deserializeLoop cols data i off acc = Inr (take i acc @ vs')"
proof (induction cols arbitrary: vs' i off acc)
  case Nil
  then show ?case by simp
next
  case (Cons col cols)
  from Cons.prems(1) obtain v vs'' where vs': "vs' = v # vs''" and okv: "value_ok col v"
    and rest: "list_all2 value_ok cols vs''"
    by (cases vs') auto
  from Cons.prems(2) vs' have b0: "bit (data ! (i div 8)) (i mod 8) \<longleftrightarrow> v = VNil"
    by (metis add.right_neutral length_greater_0_conv list.distinct(1) nth_Cons_0)
  have bits: "\<forall>k < length cols. bit (data ! ((i + 1 + k) div 8)) ((i + 1 + k) mod 8) \<longleftrightarrow> vs'' ! k = VNil"
  proof (intro allI impI)
    fix k assume "k < length cols"
    then have "Suc k < length (col # cols)" by simp
    with Cons.prems(2) have "bit (data ! ((i + Suc k) div 8)) ((i + Suc k) mod 8) \<longleftrightarrow> vs' ! Suc k = VNil"
      by blast
    with vs' show "bit (data ! ((i + 1 + k) div 8)) ((i + 1 + k) mod 8) \<longleftrightarrow> vs'' ! k = VNil"
      by simp
  qed
  have il: "i < length acc" using Cons.prems(4) by simp
  have tk: "take (Suc i) (acc[i := x]) = take i acc @ [x]" for x
    using il by (simp add: take_Suc_conv_app_nth)
  show ?case
  proof (cases "v = VNil")
    case True
    have "deserializeLoop cols data (i + 1) off (acc[i := VNil]) = Inr (take (i + 1) (acc[i := VNil]) @ vs'')"
      by (rule Cons.IH[OF rest bits]) (use Cons.prems(3,4) vs' True in simp_all)
    with True b0 vs' show ?thesis by (simp add: and_exp_eq_0_iff_not_bit tk)
  next
    case False
    from field_round_trip[OF okv False, of "payload cols vs''"] obtain fd where
      fd: "serializeField col v = Inr fd" and
      df: "deserializeField col (fd @ payload cols vs'') = Inr (v, length fd)" by blast
    from Cons.prems(3) vs' payload_Cons_field[OF False fd]
    have dd: "drop off data = fd @ payload cols vs''" by simp
    then have "drop (length fd) (drop off data) = payload cols vs''" by simp
    then have d2: "drop (off + length fd) data = payload cols vs''" by (simp add: add.commute)
    have "deserializeLoop cols data (i + 1) (off + length fd) (acc[i := v])
            = Inr (take (i + 1) (acc[i := v]) @ vs'')"
      by (rule Cons.IH[OF rest bits d2]) (use Cons.prems(4) in simp)
    with False b0 vs' dd df show ?thesis by (simp add: and_exp_eq_0_iff_not_bit tk)
  qed
qed

text \<open>The round trip on the values that \<open>value_ok\<close> accepts.\<close>

lemma div8_less: "k < n \<Longrightarrow> k div 8 < (n + 7) div (8 :: nat)"
  by (simp add: div_less_iff_less_mult)

lemma codec_round_trip:
  assumes ne: "Columns S \<noteq> []" and ok: "list_all2 value_ok (Columns S) V"
  shows "\<exists>bs. Serialize S V = Inr bs \<and> Deserialize S bs = Inr V"
proof -
  define cols where "cols = Columns S"
  define n where "n = length cols"
  define nb where "nb = (n + 7) div 8"
  define bm where "bm = nullBits V 0 (replicate nb 0)"
  define bs where "bs = bm @ payload cols V"
  from ok have okc: "list_all2 value_ok cols V" by (simp add: cols_def)
  then have len: "length V = n" by (simp add: list_all2_lengthD n_def)
  have "serializeLoop cols V 0 (replicate nb 0 @ []) = Inr (nullBits V 0 (replicate nb 0) @ [] @ payload cols V)"
    by (rule serializeLoop_eq[OF okc]) (simp_all add: nb_def n_def)
  then have sl: "serializeLoop cols V 0 (replicate nb 0) = Inr bs"
    by (simp add: bs_def bm_def)
  have ser: "Serialize S V = Inr bs"
    unfolding Serialize_def using len sl by (simp add: cols_def[symmetric] n_def[symmetric] nb_def[symmetric])
  have lbm: "length bm = nb" by (simp add: bm_def length_nullBits)
  from ne have "0 < n" by (simp add: n_def cols_def)
  then have nb0: "0 < nb" using div8_less[of 0 n] by (simp add: nb_def)
  have bits: "\<forall>k < length cols. bit (bs ! ((0 + k) div 8)) ((0 + k) mod 8) \<longleftrightarrow> V ! k = VNil"
  proof (intro allI impI)
    fix k assume "k < length cols"
    then have k: "k < n" by (simp add: n_def)
    then have kd: "k div 8 < nb" unfolding nb_def by (rule div8_less)
    then have e: "bs ! (k div 8) = bm ! (k div 8)" by (simp add: bs_def nth_append lbm)
    have "k div 8 < length (replicate nb (0 :: byte))" using kd by simp
    from bit_nullBits[OF this, of V 0]
    have "bit (bm ! (k div 8)) (k mod 8) \<longleftrightarrow> V ! k = VNil"
      using k len kd by (simp add: bm_def)
    with e show "bit (bs ! ((0 + k) div 8)) ((0 + k) mod 8) \<longleftrightarrow> V ! k = VNil" by simp
  qed
  have dr: "drop nb bs = payload cols V" by (simp add: bs_def lbm)
  have "deserializeLoop cols bs 0 nb (replicate n VNil) = Inr (take 0 (replicate n VNil) @ V)"
    by (rule deserializeLoop_eq[OF okc bits dr]) (simp add: n_def)
  then have dl: "deserializeLoop cols bs 0 nb (replicate n VNil) = Inr V" by simp
  have lbs: "nb \<le> length bs" "0 < length bs" using nb0 lbm by (simp_all add: bs_def)
  have "Deserialize S bs = Inr V"
    unfolding Deserialize_def using dl lbs
    by (simp add: cols_def[symmetric] n_def[symmetric] nb_def[symmetric])
  with ser show ?thesis by blast
qed

text \<open>
  Claim C1, at the input where the code departs from it. \<open>serializeField\<close> writes the low
  32 bits of an \<open>int\<close>; \<open>deserializeField\<close> converts the \<open>uint32\<close> it reads straight to
  \<open>int\<close>, without the \<open>int32\<close> conversion that \<open>readHeader\<close> applies to its fields, so on a
  64-bit \<open>int\<close> the value \<open>-1\<close> comes back as \<open>4294967295\<close>.
\<close>

theorem negative_int_does_not_round_trip:
  "Serialize \<lparr> Columns = [\<lparr> Name = ''id'', Type = TypeInt, Length = 0, Nullable = False \<rparr>] \<rparr>
     [VInt (- 1)] = Inr [0, 255, 255, 255, 255] \<and>
   Deserialize \<lparr> Columns = [\<lparr> Name = ''id'', Type = TypeInt, Length = 0, Nullable = False \<rparr>] \<rparr>
     [0, 255, 255, 255, 255] = Inr [VInt 4294967295] \<and>
   VInt 4294967295 \<noteq> VInt (- 1)"
proof -
  have m1: "(- 1 :: 64 word) = 18446744073709551615" by simp
  show ?thesis
    by (simp add: Serialize_def Deserialize_def serializeField_def deserializeField_def
        PutUint32_bytes_def Uint32_def m1)
qed

end
